theory Spec2Isabelle
  imports Main "HOL-Library.AList"
begin

section \<open>Text and characters\<close>

text \<open>
  A Python \<open>str\<close> is a sequence of Unicode code points; it is modelled as a list of
  natural numbers, one per code point, so that \<open>len\<close> is \<open>length\<close> and a slice is
  \<open>take\<close>/\<open>drop\<close>.  \<open>cp\<close> turns an Isabelle string literal into such a list.
\<close>

type_synonym str = "nat list"

definition cp :: "string \<Rightarrow> str" where
  "cp s = map of_char s"

text \<open>
  \<open>str.isspace\<close> for one code point, which is also what \<open>\s\<close> matches in a \<open>str\<close>
  pattern and what \<open>str.strip()\<close> removes.
\<close>

definition isspace :: "nat \<Rightarrow> bool" where
  "isspace c \<longleftrightarrow>
     (9 \<le> c \<and> c \<le> 13) \<or> (28 \<le> c \<and> c \<le> 32) \<or> c = 133 \<or> c = 160 \<or> c = 5760 \<or>
     (8192 \<le> c \<and> c \<le> 8202) \<or> c = 8232 \<or> c = 8233 \<or> c = 8239 \<or> c = 8287 \<or>
     c = 12288"

text \<open>
  Simple lower-casing as the matcher applies it under \<open>re.IGNORECASE\<close>.  It is exact on
  ASCII and Latin-1 and on the two further code points whose lower case is an ASCII letter
  (U+0130 and U+212A); every other code point is left alone.  The patterns of this program
  only contain ASCII letters, \<open>o\<close>/\<open>u\<close> with acute accent, digits and punctuation, so no
  pattern can tell the difference.
\<close>

definition lower :: "nat \<Rightarrow> nat" where
  "lower c =
     (if (65 \<le> c \<and> c \<le> 90) \<or> (192 \<le> c \<and> c \<le> 222 \<and> c \<noteq> 215) then c + 32
      else if c = 304 then 105
      else if c = 8490 then 107
      else c)"

text \<open>
  The matcher's table of extra case equivalences, restricted to the entries that involve a
  character of this program's patterns: dotless i for \<open>i\<close>, long s for \<open>s\<close>.
\<close>

definition case_fixes :: "nat \<Rightarrow> nat list" where
  "case_fixes c = (if c = 105 then [305] else if c = 115 then [383] else [])"

definition ci_eq :: "nat \<Rightarrow> nat \<Rightarrow> bool" where
  "ci_eq c x \<longleftrightarrow> (let lc = lower c; lx = lower x in lx = lc \<or> lx \<in> set (case_fixes lc))"

section \<open>Regular expressions\<close>

text \<open>
  The fragment of Python's \<open>re\<close> syntax that the program uses: literals, character
  classes (with ranges and \<open>\s\<close>), negated classes, sequence, ordered alternation, greedy
  counted repetition and numbered capture groups.
\<close>

datatype citem = Ch nat | Rng nat nat | Space

datatype regex =
    Eps
  | Lit nat
  | In "citem list"
  | NotIn "citem list"
  | Seq regex regex
  | Alt regex regex
  | Rep nat "nat option" regex
  | Grp nat regex

fun item_match :: "bool \<Rightarrow> citem \<Rightarrow> nat \<Rightarrow> bool" where
  "item_match ic (Ch c) x = (if ic then ci_eq c x else x = c)"
| "item_match ic (Rng a b) x =
     (if ic then list_ex (\<lambda>c. ci_eq c x) [a..<Suc b] else a \<le> x \<and> x \<le> b)"
| "item_match ic Space x = isspace x"

definition in_class :: "bool \<Rightarrow> citem list \<Rightarrow> nat \<Rightarrow> bool" where
  "in_class ic items x = list_ex (\<lambda>i. item_match ic i x) items"

text \<open>Pattern-building shorthands.\<close>

definition ch :: "char \<Rightarrow> citem" where
  "ch c = Ch (of_char c)"

definition rng :: "char \<Rightarrow> char \<Rightarrow> citem" where
  "rng a b = Rng (of_char a) (of_char b)"

definition lits :: "string \<Rightarrow> regex" where
  "lits s = foldr (\<lambda>c r. Seq (Lit (of_char c)) r) s Eps"

definition seqs :: "regex list \<Rightarrow> regex" where
  "seqs rs = foldr Seq rs Eps"

fun alts :: "regex \<Rightarrow> regex list \<Rightarrow> regex" where
  "alts r [] = r"
| "alts r (x # xs) = Alt r (alts x xs)"

definition star :: "regex \<Rightarrow> regex" where
  "star r = Rep 0 None r"

definition plus :: "regex \<Rightarrow> regex" where
  "plus r = Rep 1 None r"

definition opt :: "regex \<Rightarrow> regex" where
  "opt r = Rep 0 (Some 1) r"

definition rep :: "nat \<Rightarrow> nat \<Rightarrow> regex \<Rightarrow> regex" where
  "rep lo hi r = Rep lo (Some hi) r"

definition rep_min :: "nat \<Rightarrow> regex \<Rightarrow> regex" where
  "rep_min lo r = Rep lo None r"

section \<open>The backtracking matcher\<close>

text \<open>
  A matching state is the text still to be read and the groups captured so far.
  \<open>matches ic r st\<close> lists, in the order in which a backtracking matcher tries them,
  every state in which \<open>r\<close> can finish when started in \<open>st\<close>; \<open>ic\<close> is
  \<open>re.IGNORECASE\<close>.  The head of the list is the match Python reports: alternatives are
  tried left to right, and a greedy repetition tries one more round before it tries to stop.

  A round of a repetition that reads nothing is dropped.  Every repeated expression of this
  program reads at least one character, so the rule only serves termination.
\<close>

type_synonym groups = "(nat \<times> str) list"
type_synonym mstate = "str \<times> groups"

fun rsize :: "regex \<Rightarrow> nat" where
  "rsize (Seq a b) = Suc (rsize a + rsize b)"
| "rsize (Alt a b) = Suc (rsize a + rsize b)"
| "rsize (Rep lo hi r) = Suc (rsize r)"
| "rsize (Grp n r) = Suc (rsize r)"
| "rsize r = 0"

function matches :: "bool \<Rightarrow> regex \<Rightarrow> mstate \<Rightarrow> mstate list" where
  "matches ic Eps st = [st]"
| "matches ic (Lit c) (s, g) =
     (case s of [] \<Rightarrow> []
      | x # xs \<Rightarrow> if (if ic then ci_eq c x else x = c) then [(xs, g)] else [])"
| "matches ic (In items) (s, g) =
     (case s of [] \<Rightarrow> [] | x # xs \<Rightarrow> if in_class ic items x then [(xs, g)] else [])"
| "matches ic (NotIn items) (s, g) =
     (case s of [] \<Rightarrow> [] | x # xs \<Rightarrow> if in_class ic items x then [] else [(xs, g)])"
| "matches ic (Seq a b) st = concat (map (\<lambda>st'. matches ic b st') (matches ic a st))"
| "matches ic (Alt a b) st = matches ic a st @ matches ic b st"
| "matches ic (Grp n r) (s, g) =
     map (\<lambda>(s', g'). (s', AList.update n (take (length s - length s') s) g'))
         (matches ic r (s, g))"
| "matches ic (Rep lo hi r) (s, g) =
     (if hi = Some 0 then []
      else concat (map (\<lambda>st'. matches ic (Rep (lo - 1) (map_option (\<lambda>h. h - 1) hi) r) st')
                       (filter (\<lambda>st'. length (fst st') < length s) (matches ic r (s, g)))))
     @ (if lo = 0 then [(s, g)] else [])"
  by pat_completeness auto
termination
  by (relation "inv_image (less_than <*lex*> less_than)
                  (\<lambda>(ic, r, st). (rsize r, length (fst st)))") auto

section \<open>Searching\<close>

text \<open>
  A match object: where the match starts and ends in the searched text, and its groups.
  \<open>group m n\<close> is \<open>None\<close> for a group that took no part in the match.
\<close>

record rmatch =
  m_start :: nat
  m_end :: nat
  m_groups :: groups

definition group :: "rmatch \<Rightarrow> nat \<Rightarrow> str option" where
  "group m n = map_of (m_groups m) n"

text \<open>
  \<open>scan ic r pos s\<close> tries \<open>r\<close> at every start position of \<open>s\<close> from left to right,
  the end of the text included; \<open>pos\<close> is the position of \<open>s\<close> in the whole text.
\<close>

fun scan :: "bool \<Rightarrow> regex \<Rightarrow> nat \<Rightarrow> str \<Rightarrow> rmatch option" where
  "scan ic r pos [] =
     (case matches ic r ([], []) of
        [] \<Rightarrow> None
      | (s', g) # _ \<Rightarrow> Some \<lparr>m_start = pos, m_end = pos, m_groups = g\<rparr>)"
| "scan ic r pos (x # xs) =
     (case matches ic r (x # xs, []) of
        [] \<Rightarrow> scan ic r (Suc pos) xs
      | (s', g) # _ \<Rightarrow>
          Some \<lparr>m_start = pos, m_end = pos + (Suc (length xs) - length s'), m_groups = g\<rparr>)"

definition search :: "bool \<Rightarrow> regex \<Rightarrow> str \<Rightarrow> rmatch option" where
  "search ic r text = scan ic r 0 text"

text \<open>
  \<open>finditer\<close>: the successive non-overlapping matches, each search starting where the
  previous match ended.  A match that reads nothing ends the iteration; no pattern that the
  program iterates can match the empty string.
\<close>

function finditer_from :: "bool \<Rightarrow> regex \<Rightarrow> nat \<Rightarrow> str \<Rightarrow> rmatch list" where
  "finditer_from ic r pos s =
     (case scan ic r pos s of
        None \<Rightarrow> []
      | Some m \<Rightarrow>
          (let s' = drop (m_end m - pos) s
           in if length s' < length s then m # finditer_from ic r (m_end m) s' else [m]))"
  by pat_completeness auto
termination
  by (relation "measure (\<lambda>(ic, r, pos, s). length s)") auto

definition finditer :: "bool \<Rightarrow> regex \<Rightarrow> str \<Rightarrow> rmatch list" where
  "finditer ic r text = finditer_from ic r 0 text"

text \<open>\<open>re.sub\<close> with a constant replacement: the text between the matches, joined by it.\<close>

fun sub_build :: "str \<Rightarrow> str \<Rightarrow> nat \<Rightarrow> rmatch list \<Rightarrow> str" where
  "sub_build repl text prev [] = drop prev text"
| "sub_build repl text prev (m # ms) =
     take (m_start m - prev) (drop prev text) @ repl @ sub_build repl text (m_end m) ms"

definition re_sub :: "bool \<Rightarrow> regex \<Rightarrow> str \<Rightarrow> str \<Rightarrow> str" where
  "re_sub ic r repl text = sub_build repl text 0 (finditer ic r text)"

definition strip :: "str \<Rightarrow> str" where
  "strip s = rev (dropWhile isspace (rev (dropWhile isspace s)))"

section \<open>Python values and dictionaries\<close>

text \<open>
  The attribute dictionaries map field names to what the program stores under them: a
  string, or \<open>None\<close> where it stores a group that took no part in a match.  A dictionary
  is an association list in insertion order; assigning to a present key replaces its value
  in place and assigning to a new key appends it.
\<close>

datatype pyval = PyStr str | PyNone

datatype error = AttributeError | TypeError

type_synonym dict = "(string \<times> pyval) list"

definition dict_get :: "dict \<Rightarrow> string \<Rightarrow> pyval option" where
  "dict_get d k = map_of d k"

definition dict_set :: "dict \<Rightarrow> string \<Rightarrow> pyval \<Rightarrow> dict" where
  "dict_set d k v = AList.update k v d"

definition dict_update :: "dict \<Rightarrow> dict \<Rightarrow> dict" where
  "dict_update d other = fold (\<lambda>(k, v) acc. dict_set acc k v) other d"

definition of_group :: "str option \<Rightarrow> pyval" where
  "of_group g = (case g of None \<Rightarrow> PyNone | Some v \<Rightarrow> PyStr v)"

text \<open>\<open>a or d\<close> for a group \<open>a\<close> and a string \<open>d\<close>: \<open>None\<close> and the empty string are falsy.\<close>

definition or_else :: "str option \<Rightarrow> str \<Rightarrow> str" where
  "or_else a d = (case a of None \<Rightarrow> d | Some v \<Rightarrow> if v = [] then d else v)"

section \<open>The pattern tables\<close>

definition digit :: regex where
  "digit = In [rng CHR ''0'' CHR ''9'']"

definition ws1 :: regex where
  "ws1 = plus (In [Space])"

text \<open>
  \<^verbatim>\<open>([0-9]{1,2}[/-][0-9]{1,2}[/-][0-9]{2,4})\<close>,
  \<^verbatim>\<open>([0-9]{1,2}\s+de\s+[a-zA-Z]+\s+de\s+[0-9]{4})\<close>,
  \<^verbatim>\<open>([A-Za-z]+\s+[0-9]{1,2},?\s+[0-9]{4})\<close>
\<close>

definition DATE_PATTERNS :: "regex list" where
  "DATE_PATTERNS =
    [Grp 1 (seqs [rep 1 2 digit, In [ch CHR ''/'', ch CHR ''-''], rep 1 2 digit,
                  In [ch CHR ''/'', ch CHR ''-''], rep 2 4 digit]),
     Grp 1 (seqs [rep 1 2 digit, ws1, lits ''de'', ws1,
                  plus (In [rng CHR ''a'' CHR ''z'', rng CHR ''A'' CHR ''Z'']), ws1,
                  lits ''de'', ws1, rep 4 4 digit]),
     Grp 1 (seqs [plus (In [rng CHR ''A'' CHR ''Z'', rng CHR ''a'' CHR ''z'']), ws1,
                  rep 1 2 digit, opt (Lit (of_char CHR '','')), ws1, rep 4 4 digit])]"

text \<open>
  \<^verbatim>\<open>(?:total\s+a\s+pagar|monto\s+total|total\s+factura|importe\s+total\<close>
  \<^verbatim>\<open>|total\s+cuenta|valor\s+a\s+pagar|total)[:\s]+\<close>
\<close>

definition TOTAL_LABELS :: regex where
  "TOTAL_LABELS =
     seqs [alts (seqs [lits ''total'', ws1, lits ''a'', ws1, lits ''pagar''])
                [seqs [lits ''monto'', ws1, lits ''total''],
                 seqs [lits ''total'', ws1, lits ''factura''],
                 seqs [lits ''importe'', ws1, lits ''total''],
                 seqs [lits ''total'', ws1, lits ''cuenta''],
                 seqs [lits ''valor'', ws1, lits ''a'', ws1, lits ''pagar''],
                 lits ''total''],
           plus (In [ch CHR '':'', Space])]"

text \<open>
  \<^verbatim>\<open>(?:n[uu']mero\s+de\s+(?:cuenta|cliente)|n[deg ord]\s*(?:cuenta|cliente)\<close>
  \<^verbatim>\<open>|cuenta\s+n[deg ord]?|cliente\s+n[deg ord]?|customer\s+(?:number|no\.?)\<close>
  \<^verbatim>\<open>|account\s+(?:number|no\.?))[:\s]+\<close>,
  where \<open>u'\<close> is u with acute accent (250), \<open>deg\<close> the degree sign (176) and \<open>ord\<close> the
  masculine ordinal indicator (186).
\<close>

definition number_or_no :: regex where
  "number_or_no = Alt (lits ''number'') (seqs [lits ''no'', opt (Lit (of_char CHR ''.''))])"

definition CUSTOMER_LABELS :: regex where
  "CUSTOMER_LABELS =
     seqs [alts (seqs [Lit (of_char CHR ''n''), In [Ch 250, ch CHR ''u''], lits ''mero'', ws1,
                       lits ''de'', ws1, Alt (lits ''cuenta'') (lits ''cliente'')])
                [seqs [Lit (of_char CHR ''n''), In [Ch 176, Ch 186], star (In [Space]),
                       Alt (lits ''cuenta'') (lits ''cliente'')],
                 seqs [lits ''cuenta'', ws1, Lit (of_char CHR ''n''), opt (In [Ch 176, Ch 186])],
                 seqs [lits ''cliente'', ws1, Lit (of_char CHR ''n''), opt (In [Ch 176, Ch 186])],
                 seqs [lits ''customer'', ws1, number_or_no],
                 seqs [lits ''account'', ws1, number_or_no]],
           plus (In [ch CHR '':'', Space])]"

text \<open>
  \<^verbatim>\<open>(?:direcci[oo']n(?:\s+de\s+suministro)?|domicilio|address)[:\s]+\<close>,
  where \<open>o'\<close> is o with acute accent (243).
\<close>

definition ADDRESS_LABELS :: regex where
  "ADDRESS_LABELS =
     seqs [alts (seqs [lits ''direcci'', In [ch CHR ''o'', Ch 243], Lit (of_char CHR ''n''),
                       opt (seqs [ws1, lits ''de'', ws1, lits ''suministro''])])
                [lits ''domicilio'', lits ''address''],
           plus (In [ch CHR '':'', Space])]"

text \<open>
  \<^verbatim>\<open>\$\s*([0-9]{1,3}(?:[.,][0-9]{3})*(?:[.,][0-9]{1,2})?)\<close>
  \<^verbatim>\<open>|([0-9]{1,3}(?:[.,][0-9]{3})*(?:[.,][0-9]{1,2})?)\s*(?:CLP|USD|EUR|pesos?)\<close>
\<close>

definition amount_number :: regex where
  "amount_number =
     seqs [rep 1 3 digit,
           star (seqs [In [ch CHR ''.'', ch CHR '',''], rep 3 3 digit]),
           opt (seqs [In [ch CHR ''.'', ch CHR '',''], rep 1 2 digit])]"

definition AMOUNT_RE :: regex where
  "AMOUNT_RE =
     Alt (seqs [Lit (of_char CHR ''$''), star (In [Space]), Grp 1 amount_number])
         (seqs [Grp 2 amount_number, star (In [Space]),
                alts (lits ''CLP'') [lits ''USD'', lits ''EUR'',
                                     seqs [lits ''peso'', opt (Lit (of_char CHR ''s''))]]])"

section \<open>The field extractors\<close>

text \<open>\<open>(m.group(1) or m.group(2) or "").strip()\<close>\<close>

definition amount_raw :: "rmatch \<Rightarrow> str" where
  "amount_raw m = strip (or_else (group m 1) (or_else (group m 2) []))"

text \<open>
  The loop of \<open>_extract_total_amount\<close> over the label matches; \<open>None\<close> when it runs to
  its end without returning.
\<close>

fun total_labels_loop :: "str \<Rightarrow> rmatch list \<Rightarrow> str option" where
  "total_labels_loop text [] = None"
| "total_labels_loop text (label_match # ms) =
     (let rest = drop (m_end label_match) text
      in case search True AMOUNT_RE (take 60 rest) of
           None \<Rightarrow> total_labels_loop text ms
         | Some amount_match \<Rightarrow>
             (let raw = amount_raw amount_match
              in if raw \<noteq> [] then Some raw else total_labels_loop text ms))"

definition extract_total_amount :: "str \<Rightarrow> str option" where
  "extract_total_amount text =
     (case total_labels_loop text (finditer True TOTAL_LABELS text) of
        Some raw \<Rightarrow> Some raw
      | None \<Rightarrow>
          (case search True AMOUNT_RE text of
             None \<Rightarrow> None
           | Some amount_match \<Rightarrow>
               (let raw = amount_raw amount_match in if raw \<noteq> [] then Some raw else None)))"

text \<open>\<^verbatim>\<open>([0-9][0-9.\-]{0,19})\<close>\<close>

definition CUSTOMER_NUMBER_RE :: regex where
  "CUSTOMER_NUMBER_RE =
     Grp 1 (seqs [digit, rep 0 19 (In [rng CHR ''0'' CHR ''9'', ch CHR ''.'', ch CHR ''-''])])"

fun customer_labels_loop :: "str \<Rightarrow> rmatch list \<Rightarrow> error + str option" where
  "customer_labels_loop text [] = Inr None"
| "customer_labels_loop text (label_match # ms) =
     (let rest = drop (m_end label_match) text
      in case search False CUSTOMER_NUMBER_RE (take 80 rest) of
           None \<Rightarrow> customer_labels_loop text ms
         | Some num_match \<Rightarrow>
             (case group num_match 1 of
                None \<Rightarrow> Inl AttributeError
              | Some v \<Rightarrow> Inr (Some (strip v))))"

definition extract_customer_number :: "str \<Rightarrow> error + str option" where
  "extract_customer_number text = customer_labels_loop text (finditer True CUSTOMER_LABELS text)"

text \<open>\<^verbatim>\<open>([^\n\r]{5,120})\<close> and \<^verbatim>\<open>\s+\<close>\<close>

definition LINE_RE :: regex where
  "LINE_RE = Grp 1 (rep 5 120 (NotIn [Ch 10, Ch 13]))"

fun address_labels_loop :: "str \<Rightarrow> rmatch list \<Rightarrow> error + str option" where
  "address_labels_loop text [] = Inr None"
| "address_labels_loop text (label_match # ms) =
     (let rest = drop (m_end label_match) text
      in case search False LINE_RE rest of
           None \<Rightarrow> address_labels_loop text ms
         | Some line_match \<Rightarrow>
             (case group line_match 1 of
                None \<Rightarrow> Inl TypeError
              | Some v \<Rightarrow>
                  (let value = strip (re_sub False ws1 (cp '' '') v)
                   in if value \<noteq> [] then Inr (Some value) else address_labels_loop text ms)))"

definition extract_address :: "str \<Rightarrow> error + str option" where
  "extract_address text = address_labels_loop text (finditer True ADDRESS_LABELS text)"

definition DATE_KEYS :: "string list" where
  "DATE_KEYS = [''billing_period_start'', ''billing_period_end'']"

text \<open>
  The inner loop of \<open>_extract_dates\<close>: \<open>i\<close> is the index \<open>enumerate\<close> gives the match at
  the head of the list.
\<close>

fun dates_matches_loop :: "nat \<Rightarrow> rmatch list \<Rightarrow> dict \<Rightarrow> error + dict" where
  "dates_matches_loop i [] dates = Inr dates"
| "dates_matches_loop i (m # ms) dates =
     (if i \<ge> length DATE_KEYS then Inr dates
      else let key = DATE_KEYS ! i
           in if dict_get dates key = None
              then (case group m 1 of
                      None \<Rightarrow> Inl AttributeError
                    | Some v \<Rightarrow> dates_matches_loop (Suc i) ms (dict_set dates key (PyStr (strip v))))
              else dates_matches_loop (Suc i) ms dates)"

fun dates_patterns_loop :: "regex list \<Rightarrow> str \<Rightarrow> dict \<Rightarrow> error + dict" where
  "dates_patterns_loop [] text dates = Inr dates"
| "dates_patterns_loop (pattern # ps) text dates =
     (case dates_matches_loop 0 (finditer True pattern text) dates of
        Inl err \<Rightarrow> Inl err
      | Inr dates' \<Rightarrow> dates_patterns_loop ps text dates')"

definition extract_dates :: "str \<Rightarrow> error + dict" where
  "extract_dates text = dates_patterns_loop DATE_PATTERNS text []"

text \<open>
  \<^verbatim>\<open>folio[:\s]*([0-9]{6,})\<close>, \<^verbatim>\<open>n[uu']mero[:\s]*([0-9]{6,})\<close>,
  \<^verbatim>\<open>boleta[:\s]*([0-9]{6,})\<close>, \<^verbatim>\<open>factura[:\s]*([0-9]{6,})\<close>
\<close>

definition folio_tail :: regex where
  "folio_tail = seqs [star (In [ch CHR '':'', Space]), Grp 1 (rep_min 6 digit)]"

definition folio_patterns :: "regex list" where
  "folio_patterns =
     [Seq (lits ''folio'') folio_tail,
      Seq (seqs [Lit (of_char CHR ''n''), In [Ch 250, ch CHR ''u''], lits ''mero'']) folio_tail,
      Seq (lits ''boleta'') folio_tail,
      Seq (lits ''factura'') folio_tail]"

text \<open>\<^verbatim>\<open>([0-9]{1,2}\.[0-9]{3}\.[0-9]{3}-[0-9kK])\<close>\<close>

definition rut_pattern :: regex where
  "rut_pattern =
     Grp 1 (seqs [rep 1 2 digit, Lit (of_char CHR ''.''), rep 3 3 digit, Lit (of_char CHR ''.''),
                  rep 3 3 digit, Lit (of_char CHR ''-''),
                  In [rng CHR ''0'' CHR ''9'', ch CHR ''k'', ch CHR ''K'']])"

text \<open>The loop over \<open>folio_patterns\<close>, left at the first pattern that matches.\<close>

fun folio_loop :: "regex list \<Rightarrow> str \<Rightarrow> dict \<Rightarrow> dict" where
  "folio_loop [] subject attrs = attrs"
| "folio_loop (pattern # ps) subject attrs =
     (case search True pattern subject of
        None \<Rightarrow> folio_loop ps subject attrs
      | Some m \<Rightarrow> dict_set attrs ''folio'' (of_group (group m 1)))"

definition extract_from_subject :: "str \<Rightarrow> dict" where
  "extract_from_subject subject =
     (let attrs = folio_loop folio_patterns subject []
      in case search False rut_pattern subject of
           None \<Rightarrow> attrs
         | Some m \<Rightarrow> dict_set attrs ''rut_from_subject'' (of_group (group m 1)))"

section \<open>The aggregator\<close>

text \<open>
  \<open>extract_attributes_from_email_body\<close> runs its five extractors inside one
  \<open>try\<close> block whose handler only logs, and returns \<open>attributes\<close> after it.  The model
  takes the extractors as parameters, each able to raise, so that the handler has
  something to handle: an \<open>Inl\<close> ends the block with the dictionary as it then is.
\<close>

definition truthy :: "str option \<Rightarrow> bool" where
  "truthy v = (case v of None \<Rightarrow> False | Some s \<Rightarrow> s \<noteq> [])"

definition combine :: "str \<Rightarrow> str \<Rightarrow> str" where
  "combine subject body =
     (let combined = subject @ [10, 10] @ body
      in if length combined > 15000 then take 15000 combined else combined)"

definition extract_attributes_with ::
  "(str \<Rightarrow> error + dict) \<Rightarrow> (str \<Rightarrow> error + dict) \<Rightarrow> (str \<Rightarrow> error + str option) \<Rightarrow>
   (str \<Rightarrow> error + str option) \<Rightarrow> (str \<Rightarrow> error + str option) \<Rightarrow> str \<Rightarrow> str \<Rightarrow> dict" where
  "extract_attributes_with ex_subject ex_dates ex_total ex_customer ex_address subject body =
     (let attributes = []
      in case ex_subject subject of
           Inl err \<Rightarrow> attributes
         | Inr subject_attrs \<Rightarrow>
      (let attributes = dict_update attributes subject_attrs;
           combined = combine subject body
       in case ex_dates combined of
            Inl err \<Rightarrow> attributes
          | Inr dates \<Rightarrow>
      (let attributes = dict_update attributes dates
       in case ex_total combined of
            Inl err \<Rightarrow> attributes
          | Inr total' \<Rightarrow>
      (let attributes = (if truthy total'
                         then dict_set attributes ''total_amount'' (of_group total')
                         else attributes)
       in case ex_customer combined of
            Inl err \<Rightarrow> attributes
          | Inr customer \<Rightarrow>
      (let attributes = (if truthy customer
                         then dict_set attributes ''customer_number'' (of_group customer)
                         else attributes)
       in case ex_address combined of
            Inl err \<Rightarrow> attributes
          | Inr address \<Rightarrow>
              (if truthy address
               then dict_set attributes ''address'' (of_group address)
               else attributes))))))"

definition extract_attributes_from_email_body :: "str \<Rightarrow> str \<Rightarrow> dict" where
  "extract_attributes_from_email_body =
     extract_attributes_with (\<lambda>subject. Inr (extract_from_subject subject)) extract_dates
       (\<lambda>text. Inr (extract_total_amount text)) extract_customer_number extract_address"

fun min_len :: "regex \<Rightarrow> nat" where
  "min_len Eps = 0"
| "min_len (Lit c) = 1"
| "min_len (In items) = 1"
| "min_len (NotIn items) = 1"
| "min_len (Seq a b) = min_len a + min_len b"
| "min_len (Alt a b) = min (min_len a) (min_len b)"
| "min_len (Rep lo hi r) = lo * min_len r"
| "min_len (Grp n r) = min_len r"

fun firstp :: "bool \<Rightarrow> regex \<Rightarrow> nat \<Rightarrow> bool" where
  "firstp ic Eps x = False"
| "firstp ic (Lit c) x = (if ic then ci_eq c x else x = c)"
| "firstp ic (In items) x = in_class ic items x"
| "firstp ic (NotIn items) x = (\<not> in_class ic items x)"
| "firstp ic (Seq a b) x = (firstp ic a x \<or> (min_len a = 0 \<and> firstp ic b x))"
| "firstp ic (Alt a b) x = (firstp ic a x \<or> firstp ic b x)"
| "firstp ic (Rep lo hi r) x = firstp ic r x"
| "firstp ic (Grp n r) x = firstp ic r x"

fun charp :: "bool \<Rightarrow> regex \<Rightarrow> nat \<Rightarrow> bool" where
  "charp ic Eps x = False"
| "charp ic (Lit c) x = (if ic then ci_eq c x else x = c)"
| "charp ic (In items) x = in_class ic items x"
| "charp ic (NotIn items) x = (\<not> in_class ic items x)"
| "charp ic (Seq a b) x = (charp ic a x \<or> charp ic b x)"
| "charp ic (Alt a b) x = (charp ic a x \<or> charp ic b x)"
| "charp ic (Rep lo hi r) x = charp ic r x"
| "charp ic (Grp n r) x = charp ic r x"

definition read :: "mstate \<Rightarrow> mstate \<Rightarrow> str" where
  "read st st' = take (length (fst st) - length (fst st')) (fst st)"

fun grp_ok :: "bool \<Rightarrow> regex \<Rightarrow> nat \<Rightarrow> str \<Rightarrow> bool" where
  "grp_ok ic (Grp m r) n v =
     ((m = n \<and> min_len r \<le> length v \<and> list_all (charp ic r) v \<and>
       (case v of [] \<Rightarrow> True | x # _ \<Rightarrow> firstp ic r x)) \<or> grp_ok ic r n v)"
| "grp_ok ic (Seq a b) n v = (grp_ok ic a n v \<or> grp_ok ic b n v)"
| "grp_ok ic (Alt a b) n v = (grp_ok ic a n v \<or> grp_ok ic b n v)"
| "grp_ok ic (Rep lo hi r) n v = grp_ok ic r n v"
| "grp_ok ic r n v = False"

fun sets_group :: "regex \<Rightarrow> nat \<Rightarrow> bool" where
  "sets_group (Grp m r) n = (m = n \<or> sets_group r n)"
| "sets_group (Seq a b) n = (sets_group a n \<or> sets_group b n)"
| "sets_group (Alt a b) n = (sets_group a n \<and> sets_group b n)"
| "sets_group (Rep lo hi r) n = (0 < lo \<and> sets_group r n)"
| "sets_group r n = False"

definition slot_value :: "rmatch list \<Rightarrow> nat \<Rightarrow> pyval option" where
  "slot_value ms i =
     (if i < length ms then map_option (\<lambda>v. PyStr (strip v)) (group (ms ! i) 1) else None)"

definition date_slot_from :: "regex list \<Rightarrow> nat \<Rightarrow> str \<Rightarrow> pyval option" where
  "date_slot_from ps i text =
     (case List.find (\<lambda>p. i < length (finditer True p text)) ps of
        None \<Rightarrow> None
      | Some p \<Rightarrow> slot_value (finditer True p text) i)"

definition date_slot :: "nat \<Rightarrow> str \<Rightarrow> pyval option" where
  "date_slot i text = date_slot_from DATE_PATTERNS i text"

definition or_slot :: "pyval option \<Rightarrow> pyval option \<Rightarrow> pyval option" where
  "or_slot a b = (case a of None \<Rightarrow> b | Some v \<Rightarrow> Some v)"

definition amount_char :: "nat \<Rightarrow> bool" where
  "amount_char x \<longleftrightarrow> (48 \<le> x \<and> x \<le> 57) \<or> x = 46 \<or> x = 44"

definition folio_of :: "str \<Rightarrow> pyval option" where
  "folio_of subject =
     (case List.find (\<lambda>p. search True p subject \<noteq> None) folio_patterns of
        None \<Rightarrow> None
      | Some p \<Rightarrow> map_option (\<lambda>m. of_group (group m 1)) (search True p subject))"

definition rut_of :: "str \<Rightarrow> pyval option" where
  "rut_of subject = map_option (\<lambda>m. of_group (group m 1)) (search False rut_pattern subject)"

definition field_of :: "str option \<Rightarrow> pyval option" where
  "field_of r = (if truthy r then Some (of_group r) else None)"

definition sum_field :: "error + str option \<Rightarrow> pyval option" where
  "sum_field r = (case r of Inl e \<Rightarrow> None | Inr v \<Rightarrow> field_of v)"

definition attr_of :: "str \<Rightarrow> str \<Rightarrow> string \<Rightarrow> pyval option" where
  "attr_of subject body k =
     (if k = ''folio'' then folio_of subject
      else if k = ''rut_from_subject'' then rut_of subject
      else if k = ''billing_period_start'' then date_slot 0 (combine subject body)
      else if k = ''billing_period_end'' then date_slot 1 (combine subject body)
      else if k = ''total_amount'' then field_of (extract_total_amount (combine subject body))
      else if k = ''customer_number'' then sum_field (extract_customer_number (combine subject body))
      else if k = ''address'' then sum_field (extract_address (combine subject body))
      else None)"

definition letter :: "nat \<Rightarrow> bool" where
  "letter x \<longleftrightarrow> (65 \<le> x \<and> x \<le> 90) \<or> (97 \<le> x \<and> x \<le> 122) \<or> x = 304 \<or> x = 305 \<or>
     x = 383 \<or> x = 8490"

text \<open>
  What the aggregator does with the result of one of its three guarded extractors:
  \<open>if value: attributes[key] = value\<close>.
\<close>

definition with_field :: "string \<Rightarrow> str option \<Rightarrow> dict \<Rightarrow> dict" where
  "with_field k r d = (if truthy r then dict_set d k (of_group r) else d)"

section \<open>The aggregator on an explicit store\<close>

text \<open>
  The same function once more, now with the objects it creates and mutates made explicit.
  A store is the list of the dictionaries allocated so far, an address is an index into it.
  \<open>attributes: dict = {}\<close> allocates a fresh dictionary, \<open>attributes.update(...)\<close> and
  \<open>attributes[key] = value\<close> change the dictionary at that address in place, and the call
  returns the address.  The pattern tables of the module are only ever read.
\<close>

type_synonym store = "dict list"

definition new_dict :: "store \<Rightarrow> nat \<times> store" where
  "new_dict st = (length st, st @ [[]])"

definition update_at :: "store \<Rightarrow> nat \<Rightarrow> dict \<Rightarrow> store" where
  "update_at st a other = st[a := dict_update (st ! a) other]"

definition set_at :: "store \<Rightarrow> nat \<Rightarrow> string \<Rightarrow> pyval \<Rightarrow> store" where
  "set_at st a k v = st[a := dict_set (st ! a) k v]"

definition extract_attributes_call :: "store \<Rightarrow> str \<Rightarrow> str \<Rightarrow> nat \<times> store" where
  "extract_attributes_call st0 subject body =
     (let (attributes, st) = new_dict st0
      in (attributes,
          (let st = update_at st attributes (extract_from_subject subject);
               combined = combine subject body
           in case extract_dates combined of
                Inl err \<Rightarrow> st
              | Inr dates \<Rightarrow>
           (let st = update_at st attributes dates;
                total' = extract_total_amount combined;
                st = (if truthy total'
                      then set_at st attributes ''total_amount'' (of_group total') else st)
            in case extract_customer_number combined of
                 Inl err \<Rightarrow> st
               | Inr customer \<Rightarrow>
            (let st = (if truthy customer
                       then set_at st attributes ''customer_number'' (of_group customer)
                       else st)
             in case extract_address combined of
                  Inl err \<Rightarrow> st
                | Inr address \<Rightarrow>
                    (if truthy address
                     then set_at st attributes ''address'' (of_group address)
                     else st))))))"

lemmas matches_Rep = matches.simps(8)
declare matches.simps(8) [simp del]

lemma matches_Rep_cases:
  assumes "st' \<in> set (matches ic (Rep lo hi r) (s, g))"
  shows "(lo = 0 \<and> st' = (s, g)) \<or>
         (hi \<noteq> Some 0 \<and> (\<exists>st1. st1 \<in> set (matches ic r (s, g)) \<and> length (fst st1) < length s \<and>
             st' \<in> set (matches ic (Rep (lo - 1) (map_option (\<lambda>h. h - 1) hi) r) st1)))"
  using assms unfolding matches_Rep by (auto split: if_splits)

lemma matches_suffix:
  "st' \<in> set (matches ic r st) \<Longrightarrow> \<exists>w. fst st = w @ fst st'"
proof (induction ic r st arbitrary: st' rule: matches.induct)
  case (5 ic a b st)
  then obtain st1 where a: "st1 \<in> set (matches ic a st)" and b: "st' \<in> set (matches ic b st1)"
    by auto
  from "5.IH"(1)[OF a] obtain w1 where "fst st = w1 @ fst st1" by blast
  moreover from "5.IH"(2)[OF a b] obtain w2 where "fst st1 = w2 @ fst st'" by blast
  ultimately show ?case by simp
next
  case (8 ic lo hi r s g)
  from matches_Rep_cases[OF "8.prems"] show ?case
  proof (elim disjE conjE exE)
    fix st1
    assume nz: "hi \<noteq> Some 0" and a: "st1 \<in> set (matches ic r (s, g))"
      and l: "length (fst st1) < length s"
      and b: "st' \<in> set (matches ic (Rep (lo - 1) (map_option (\<lambda>h. h - 1) hi) r) st1)"
    from "8.IH"(1)[OF nz a] obtain w1 where "s = w1 @ fst st1" by auto
    moreover from "8.IH"(2)[OF nz _ b] a l obtain w2 where "fst st1 = w2 @ fst st'" by auto
    ultimately show ?thesis by simp
  qed simp
qed (auto split: list.splits if_splits)

lemma read_app: "fst st = w @ fst st' \<Longrightarrow> read st st' = w"
  by (simp add: read_def)

lemma matches_read:
  assumes "st' \<in> set (matches ic r st)"
  shows "fst st = read st st' @ fst st'"
proof -
  from matches_suffix[OF assms] obtain w where w: "fst st = w @ fst st'" by blast
  then show ?thesis by (simp add: read_app)
qed

lemma matches_length: "st' \<in> set (matches ic r st) \<Longrightarrow> length (fst st') \<le> length (fst st)"
  using matches_suffix by fastforce

lemma read_trans:
  assumes "fst st = w1 @ fst st1" "fst st1 = w2 @ fst st'"
  shows "read st st' = read st st1 @ read st1 st'"
  using assms by (simp add: read_def)

lemma matches_min_len:
  "st' \<in> set (matches ic r st) \<Longrightarrow> length (fst st') + min_len r \<le> length (fst st)"
proof (induction ic r st arbitrary: st' rule: matches.induct)
  case (5 ic a b st)
  then obtain st1 where a: "st1 \<in> set (matches ic a st)" and b: "st' \<in> set (matches ic b st1)"
    by auto
  from "5.IH"(1)[OF a] "5.IH"(2)[OF a b] show ?case by simp
next
  case (8 ic lo hi r s g)
  from matches_Rep_cases[OF "8.prems"] show ?case
  proof (elim disjE conjE exE)
    fix st1
    assume nz: "hi \<noteq> Some 0" and a: "st1 \<in> set (matches ic r (s, g))"
      and l: "length (fst st1) < length s"
      and b: "st' \<in> set (matches ic (Rep (lo - 1) (map_option (\<lambda>h. h - 1) hi) r) st1)"
    have 1: "length (fst st1) + min_len r \<le> length s" using "8.IH"(1)[OF nz a] by simp
    have 2: "length (fst st') + (lo - 1) * min_len r \<le> length (fst st1)"
      using "8.IH"(2)[OF nz _ b] a l by simp
    have "lo * min_len r \<le> (lo - 1) * min_len r + min_len r" by (cases lo) simp_all
    with 1 2 show ?thesis by simp
  qed simp
next
  case (6 ic a b st)
  from "6.prems" have "st' \<in> set (matches ic a st) \<or> st' \<in> set (matches ic b st)" by simp
  then show ?case
  proof
    assume "st' \<in> set (matches ic a st)"
    from "6.IH"(1)[OF this] show ?thesis by simp
  next
    assume "st' \<in> set (matches ic b st)"
    from "6.IH"(2)[OF this] show ?thesis by simp
  qed
qed (auto split: list.splits if_splits)

lemma matches_chars:
  "st' \<in> set (matches ic r st) \<Longrightarrow> x \<in> set (read st st') \<Longrightarrow> charp ic r x"
proof (induction ic r st arbitrary: st' rule: matches.induct)
  case (5 ic a b st)
  then obtain st1 where a: "st1 \<in> set (matches ic a st)" and b: "st' \<in> set (matches ic b st1)"
    by auto
  from matches_suffix[OF a] matches_suffix[OF b] obtain w1 w2 where
    "fst st = w1 @ fst st1" "fst st1 = w2 @ fst st'" by blast
  then have "read st st' = read st st1 @ read st1 st'" by (rule read_trans)
  with "5.prems"(2) have "x \<in> set (read st st1) \<or> x \<in> set (read st1 st')" by simp
  with "5.IH"(1)[OF a] "5.IH"(2)[OF a b] show ?case by auto
next
  case (8 ic lo hi r s g)
  from matches_Rep_cases[OF "8.prems"(1)] show ?case
  proof (elim disjE conjE exE)
    assume "st' = (s, g)"
    with "8.prems"(2) show ?thesis by (simp add: read_def)
  next
    fix st1
    assume nz: "hi \<noteq> Some 0" and a: "st1 \<in> set (matches ic r (s, g))"
      and l: "length (fst st1) < length s"
      and b: "st' \<in> set (matches ic (Rep (lo - 1) (map_option (\<lambda>h. h - 1) hi) r) st1)"
    from matches_suffix[OF a] matches_suffix[OF b] obtain w1 w2 where
      "fst (s, g) = w1 @ fst st1" "fst st1 = w2 @ fst st'" by blast
    then have "read (s, g) st' = read (s, g) st1 @ read st1 st'" by (rule read_trans)
    with "8.prems"(2) have "x \<in> set (read (s, g) st1) \<or> x \<in> set (read st1 st')" by simp
    then show ?thesis
    proof
      assume "x \<in> set (read (s, g) st1)"
      from "8.IH"(1)[OF nz a this] show ?thesis by simp
    next
      assume "x \<in> set (read st1 st')"
      from "8.IH"(2)[OF nz _ b this] a l show ?thesis by simp
    qed
  qed
next
  case (6 ic a b st)
  from "6.prems"(1) have "st' \<in> set (matches ic a st) \<or> st' \<in> set (matches ic b st)" by simp
  then show ?case
  proof
    assume "st' \<in> set (matches ic a st)"
    from "6.IH"(1)[OF this "6.prems"(2)] show ?thesis by simp
  next
    assume "st' \<in> set (matches ic b st)"
    from "6.IH"(2)[OF this "6.prems"(2)] show ?thesis by simp
  qed
next
  case (7 ic n r s g)
  then obtain st1 where a: "st1 \<in> set (matches ic r (s, g))" and e: "fst st' = fst st1"
    by (auto simp: case_prod_beta)
  from "7.prems"(2) e have "x \<in> set (read (s, g) st1)" by (simp add: read_def)
  from "7.IH"[OF a this] show ?case by simp
qed (auto simp: read_def split: list.splits if_splits)

lemma matches_first:
  "st' \<in> set (matches ic r st) \<Longrightarrow> length (fst st') < length (fst st) \<Longrightarrow>
   firstp ic r (hd (fst st))"
proof (induction ic r st arbitrary: st' rule: matches.induct)
  case (5 ic a b st)
  then obtain st1 where a: "st1 \<in> set (matches ic a st)" and b: "st' \<in> set (matches ic b st1)"
    by auto
  show ?case
  proof (cases "length (fst st1) < length (fst st)")
    case True
    from "5.IH"(1)[OF a True] show ?thesis by simp
  next
    case False
    with matches_suffix[OF a] have eq: "fst st1 = fst st" by auto
    from matches_min_len[OF a] eq have m: "min_len a = 0" by simp
    from "5.IH"(2)[OF a b] "5.prems"(2) eq have "firstp ic b (hd (fst st))" by simp
    with m show ?thesis by simp
  qed
next
  case (8 ic lo hi r s g)
  from matches_Rep_cases[OF "8.prems"(1)] show ?case
  proof (elim disjE conjE exE)
    assume "st' = (s, g)"
    with "8.prems"(2) show ?thesis by simp
  next
    fix st1
    assume nz: "hi \<noteq> Some 0" and a: "st1 \<in> set (matches ic r (s, g))"
      and l: "length (fst st1) < length s"
    from "8.IH"(1)[OF nz a] l show ?thesis by simp
  qed
next
  case (7 ic n r s g)
  then obtain st1 where a: "st1 \<in> set (matches ic r (s, g))" and e: "fst st' = fst st1"
    by (auto simp: case_prod_beta)
  from "7.IH"[OF a] "7.prems"(2) e show ?case by simp
next
  case (6 ic a b st)
  from "6.prems"(1) have "st' \<in> set (matches ic a st) \<or> st' \<in> set (matches ic b st)" by simp
  then show ?case
  proof
    assume "st' \<in> set (matches ic a st)"
    from "6.IH"(1)[OF this "6.prems"(2)] show ?thesis by simp
  next
    assume "st' \<in> set (matches ic b st)"
    from "6.IH"(2)[OF this "6.prems"(2)] show ?thesis by simp
  qed
qed (auto split: list.splits if_splits)

lemma matches_Grp_cases:
  assumes "st' \<in> set (matches ic (Grp n r) (s, g))"
  shows "\<exists>st1. st1 \<in> set (matches ic r (s, g)) \<and> fst st' = fst st1 \<and>
           snd st' = AList.update n (read (s, g) st1) (snd st1)"
  using assms by (auto simp: case_prod_beta read_def)

lemma read_Grp_ok:
  assumes a: "st1 \<in> set (matches ic r st)"
  shows "min_len r \<le> length (read st st1) \<and> list_all (charp ic r) (read st st1) \<and>
         (case read st st1 of [] \<Rightarrow> True | x # _ \<Rightarrow> firstp ic r x)"
proof -
  have eq: "fst st = read st st1 @ fst st1" by (rule matches_read[OF a])
  have 1: "min_len r \<le> length (read st st1)"
    using matches_min_len[OF a] by (simp add: read_def)
  have 2: "list_all (charp ic r) (read st st1)"
    using matches_chars[OF a] by (simp add: list_all_iff)
  have 3: "(case read st st1 of [] \<Rightarrow> True | x # _ \<Rightarrow> firstp ic r x)"
  proof (cases "read st st1")
    case Nil
    then show ?thesis by simp
  next
    case (Cons x xs)
    with eq have "length (fst st1) < length (fst st)" and "hd (fst st) = x"
      by (metis add_diff_cancel_right' length_append length_greater_0_conv list.distinct(1) zero_less_diff less_add_same_cancel2 add.commute)
         (metis eq Cons hd_append2 list.sel(1) list.distinct(1))
    with matches_first[OF a] Cons show ?thesis by simp
  qed
  from 1 2 3 show ?thesis by simp
qed

lemma matches_groups:
  "st' \<in> set (matches ic r st) \<Longrightarrow> map_of (snd st') n = Some v \<Longrightarrow>
   map_of (snd st) n = Some v \<or> grp_ok ic r n v"
proof (induction ic r st arbitrary: st' rule: matches.induct)
  case (5 ic a b st)
  then obtain st1 where a: "st1 \<in> set (matches ic a st)" and b: "st' \<in> set (matches ic b st1)"
    by auto
  from "5.IH"(2)[OF a b "5.prems"(2)] "5.IH"(1)[OF a] show ?case by auto
next
  case (6 ic a b st)
  from "6.prems"(1) have "st' \<in> set (matches ic a st) \<or> st' \<in> set (matches ic b st)" by simp
  then show ?case
  proof
    assume "st' \<in> set (matches ic a st)"
    from "6.IH"(1)[OF this "6.prems"(2)] show ?thesis by auto
  next
    assume "st' \<in> set (matches ic b st)"
    from "6.IH"(2)[OF this "6.prems"(2)] show ?thesis by auto
  qed
next
  case (7 ic m r s g)
  from matches_Grp_cases[OF "7.prems"(1)] obtain st1 where
    a: "st1 \<in> set (matches ic r (s, g))" and
    e: "snd st' = AList.update m (read (s, g) st1) (snd st1)" by blast
  show ?case
  proof (cases "m = n")
    case True
    with e "7.prems"(2) have "v = read (s, g) st1" by (simp add: update_conv')
    with read_Grp_ok[OF a] True show ?thesis by simp
  next
    case False
    with e "7.prems"(2) have "map_of (snd st1) n = Some v" by (simp add: update_conv')
    from "7.IH"[OF a this] show ?thesis by auto
  qed
next
  case (8 ic lo hi r s g)
  from matches_Rep_cases[OF "8.prems"(1)] show ?case
  proof (elim disjE conjE exE)
    assume "st' = (s, g)"
    with "8.prems"(2) show ?thesis by simp
  next
    fix st1
    assume nz: "hi \<noteq> Some 0" and a: "st1 \<in> set (matches ic r (s, g))"
      and l: "length (fst st1) < length s"
      and b: "st' \<in> set (matches ic (Rep (lo - 1) (map_option (\<lambda>h. h - 1) hi) r) st1)"
    from "8.IH"(2)[OF nz _ b "8.prems"(2)] a l
    have "map_of (snd st1) n = Some v \<or> grp_ok ic r n v" by simp
    with "8.IH"(1)[OF nz a] show ?thesis by auto
  qed
qed (auto split: list.splits if_splits)

lemma matches_sets:
  "st' \<in> set (matches ic r st) \<Longrightarrow> sets_group r n \<or> map_of (snd st) n \<noteq> None \<Longrightarrow>
   map_of (snd st') n \<noteq> None"
proof (induction ic r st arbitrary: st' rule: matches.induct)
  case (5 ic a b st)
  then obtain st1 where a: "st1 \<in> set (matches ic a st)" and b: "st' \<in> set (matches ic b st1)"
    by auto
  show ?case
  proof (cases "sets_group b n")
    case True
    from "5.IH"(2)[OF a b] True show ?thesis by simp
  next
    case False
    with "5.prems"(2) have "sets_group a n \<or> map_of (snd st) n \<noteq> None" by simp
    from "5.IH"(1)[OF a this] "5.IH"(2)[OF a b] show ?thesis by simp
  qed
next
  case (6 ic a b st)
  from "6.prems"(1) have "st' \<in> set (matches ic a st) \<or> st' \<in> set (matches ic b st)" by simp
  then show ?case
  proof
    assume "st' \<in> set (matches ic a st)"
    from "6.IH"(1)[OF this] "6.prems"(2) show ?thesis by auto
  next
    assume "st' \<in> set (matches ic b st)"
    from "6.IH"(2)[OF this] "6.prems"(2) show ?thesis by auto
  qed
next
  case (7 ic m r s g)
  from matches_Grp_cases[OF "7.prems"(1)] obtain st1 where
    a: "st1 \<in> set (matches ic r (s, g))" and
    e: "snd st' = AList.update m (read (s, g) st1) (snd st1)" by blast
  show ?case
  proof (cases "m = n")
    case True
    with e show ?thesis by (simp add: update_conv')
  next
    case False
    with "7.prems"(2) have "sets_group r n \<or> map_of (snd (s, g)) n \<noteq> None" by simp
    from "7.IH"[OF a this] e False show ?thesis by (simp add: update_conv')
  qed
next
  case (8 ic lo hi r s g)
  from matches_Rep_cases[OF "8.prems"(1)] show ?case
  proof (elim disjE conjE exE)
    assume "lo = 0" "st' = (s, g)"
    with "8.prems"(2) show ?thesis by simp
  next
    fix st1
    assume nz: "hi \<noteq> Some 0" and a: "st1 \<in> set (matches ic r (s, g))"
      and l: "length (fst st1) < length s"
      and b: "st' \<in> set (matches ic (Rep (lo - 1) (map_option (\<lambda>h. h - 1) hi) r) st1)"
    from "8.prems"(2) have "sets_group r n \<or> map_of (snd (s, g)) n \<noteq> None" by auto
    from "8.IH"(1)[OF nz a this] have "map_of (snd st1) n \<noteq> None" .
    with "8.IH"(2)[OF nz _ b] a l show ?thesis by simp
  qed
qed (auto split: list.splits if_splits)

declare finditer_from.simps [simp del]

lemma scan_Some:
  "scan ic r pos s = Some m \<Longrightarrow>
   \<exists>t st'. st' \<in> set (matches ic r (t, [])) \<and> m_groups m = snd st'"
proof (induction s arbitrary: pos)
  case Nil
  then show ?case by (auto split: list.splits) (metis list.set_intros(1) snd_conv)
next
  case (Cons x xs)
  show ?case
  proof (cases "matches ic r (x # xs, [])")
    case Nil
    with Cons.prems have "scan ic r (Suc pos) xs = Some m" by simp
    from Cons.IH[OF this] show ?thesis .
  next
    case (Cons st' sts)
    with Cons.prems have "m_groups m = snd st'" by (auto simp: case_prod_beta)
    moreover from Cons have "st' \<in> set (matches ic r (x # xs, []))" by simp
    ultimately show ?thesis by blast
  qed
qed

lemma finditer_from_Some:
  "m \<in> set (finditer_from ic r pos s) \<Longrightarrow>
   \<exists>t st'. st' \<in> set (matches ic r (t, [])) \<and> m_groups m = snd st'"
proof (induction ic r pos s rule: finditer_from.induct)
  case (1 ic r pos s)
  show ?case
  proof (cases "scan ic r pos s")
    case None
    with "1.prems" show ?thesis by (simp add: finditer_from.simps[of ic r pos s])
  next
    case (Some m0)
    show ?thesis
    proof (cases "m = m0")
      case True
      with scan_Some[OF Some] show ?thesis by simp
    next
      case False
      with "1.prems" Some
      have l: "length (drop (m_end m0 - pos) s) < length s"
        and "m \<in> set (finditer_from ic r (m_end m0) (drop (m_end m0 - pos) s))"
        by (auto simp: finditer_from.simps[of ic r pos s] Let_def split: if_splits)
      with "1.IH"[OF Some refl] show ?thesis by simp
    qed
  qed
qed

lemma groups_of_match:
  assumes "st' \<in> set (matches ic r (t, []))" and "m_groups m = snd st'"
  shows "(sets_group r n \<longrightarrow> group m n \<noteq> None) \<and> (\<forall>v. group m n = Some v \<longrightarrow> grp_ok ic r n v)"
  using matches_sets[OF assms(1), of n] matches_groups[OF assms(1), of n] assms(2)
  by (auto simp: group_def)

lemma scan_group:
  "scan ic r pos s = Some m \<Longrightarrow> sets_group r n \<Longrightarrow> \<exists>v. group m n = Some v \<and> grp_ok ic r n v"
  using scan_Some groups_of_match by (metis not_Some_eq)

lemma scan_group_ok:
  "scan ic r pos s = Some m \<Longrightarrow> group m n = Some v \<Longrightarrow> grp_ok ic r n v"
  using scan_Some groups_of_match by metis

lemma finditer_group:
  "m \<in> set (finditer ic r text) \<Longrightarrow> sets_group r n \<Longrightarrow>
   \<exists>v. group m n = Some v \<and> grp_ok ic r n v"
  unfolding finditer_def using finditer_from_Some groups_of_match by (metis not_Some_eq)

lemma isspace_lower: "isspace x \<Longrightarrow> lower x = x"
  by (auto simp: isspace_def lower_def)

lemma not_space_fix: "y \<in> set (case_fixes c) \<Longrightarrow> \<not> isspace y"
  by (auto simp: case_fixes_def isspace_def split: if_splits)

lemma ci_eq_not_space: "ci_eq c x \<Longrightarrow> \<not> isspace (lower c) \<Longrightarrow> \<not> isspace x"
proof
  assume a: "ci_eq c x" and b: "\<not> isspace (lower c)" and s: "isspace x"
  from s have "lower x = x" by (rule isspace_lower)
  with a have "x = lower c \<or> x \<in> set (case_fixes (lower c))" by (simp add: ci_eq_def Let_def)
  with b s not_space_fix show False by blast
qed

lemma item_match_Rng:
  "item_match ic (Rng a b) x \<Longrightarrow> \<exists>c. a \<le> c \<and> c \<le> b \<and> (if ic then ci_eq c x else x = c)"
  by (cases ic) (auto simp: list_ex_iff)

lemma item_match_Ch: "item_match ic (Ch c) x = (if ic then ci_eq c x else x = c)"
  by simp

lemma item_match_Space: "item_match ic Space x = isspace x"
  by simp

declare item_match.simps [simp del]

lemma lower_small: "lower x < 97 \<Longrightarrow> lower x = x"
  by (auto simp: lower_def split: if_splits)

lemma ci_eq_digit: "c < 65 \<Longrightarrow> ci_eq c x \<Longrightarrow> x = c"
proof -
  assume c: "c < 65" and e: "ci_eq c x"
  from c have lc: "lower c = c" by (simp add: lower_def)
  from c have "case_fixes c = []" by (simp add: case_fixes_def)
  with e lc have "lower x = c" by (simp add: ci_eq_def Let_def)
  with c lower_small[of x] show ?thesis by simp
qed

lemma in_digits: "in_class ic [rng CHR ''0'' CHR ''9''] x \<Longrightarrow> 48 \<le> x \<and> x \<le> 57"
proof -
  assume "in_class ic [rng CHR ''0'' CHR ''9''] x"
  then have "item_match ic (Rng 48 57) x" by (simp add: in_class_def rng_def)
  from item_match_Rng[OF this] obtain c where c: "48 \<le> c" "c \<le> 57"
    and m: "if ic then ci_eq c x else x = c" by blast
  from c m ci_eq_digit[of c x] show ?thesis by (cases ic) auto
qed

lemma in_digits_not_space: "in_class ic [rng CHR ''0'' CHR ''9''] x \<Longrightarrow> \<not> isspace x"
  by (drule in_digits) (auto simp: isspace_def)

lemma lower_letter: "65 \<le> c \<Longrightarrow> c \<le> 122 \<Longrightarrow> \<not> isspace (lower c)"
  by (auto simp: lower_def isspace_def)

lemma in_letters_not_space:
  assumes "in_class True [rng CHR ''A'' CHR ''Z'', rng CHR ''a'' CHR ''z''] x"
  shows "\<not> isspace x"
proof -
  from assms have "item_match True (Rng 65 90) x \<or> item_match True (Rng 97 122) x"
    by (simp add: in_class_def rng_def)
  then have "\<exists>c. 65 \<le> c \<and> c \<le> 122 \<and> ci_eq c x"
  proof
    assume "item_match True (Rng 65 90) x"
    from item_match_Rng[OF this] obtain c where "65 \<le> c" "c \<le> 90" "ci_eq c x" by auto
    then have "65 \<le> c \<and> c \<le> 122 \<and> ci_eq c x" by simp
    then show ?thesis ..
  next
    assume "item_match True (Rng 97 122) x"
    from item_match_Rng[OF this] obtain c where "97 \<le> c" "c \<le> 122" "ci_eq c x" by auto
    then have "65 \<le> c \<and> c \<le> 122 \<and> ci_eq c x" by simp
    then show ?thesis ..
  qed
  then obtain c where "65 \<le> c" "c \<le> 122" "ci_eq c x" by blast
  with ci_eq_not_space lower_letter show ?thesis by blast
qed

lemma strip_nonempty: "v = x # xs \<Longrightarrow> \<not> isspace x \<Longrightarrow> strip v \<noteq> []"
  by (auto simp: strip_def dropWhile_eq_Nil_conv)

lemma dropWhile_no_space: "list_all (\<lambda>x. \<not> isspace x) xs \<Longrightarrow> dropWhile isspace xs = xs"
  by (cases xs) auto

lemma strip_id: "list_all (\<lambda>x. \<not> isspace x) v \<Longrightarrow> strip v = v"
proof -
  assume a: "list_all (\<lambda>x. \<not> isspace x) v"
  then have "list_all (\<lambda>x. \<not> isspace x) (rev v)" by (simp add: list_all_iff)
  with a show ?thesis by (simp add: strip_def dropWhile_no_space)
qed

lemma date_pattern_group:
  assumes "p \<in> set DATE_PATTERNS" and "m \<in> set (finditer True p text)"
  shows "\<exists>v. group m 1 = Some v \<and> strip v \<noteq> []"
proof -
  from assms(1) have s: "sets_group p 1" by (auto simp: DATE_PATTERNS_def)
  from finditer_group[OF assms(2) s] obtain v where v: "group m 1 = Some v"
    and ok: "grp_ok True p 1 v" by blast
  from assms(1) ok have "\<exists>x xs. v = x # xs \<and> \<not> isspace x"
    by (auto simp: DATE_PATTERNS_def seqs_def rep_def plus_def opt_def lits_def ws1_def digit_def
          dest: in_digits_not_space in_letters_not_space split: list.splits)
  with v strip_nonempty show ?thesis by blast
qed

lemma dict_get_set: "dict_get (dict_set d k v) k' = (if k' = k then Some v else dict_get d k')"
  by (simp add: dict_get_def dict_set_def update_conv')

lemma distinct_dict_set: "distinct (map fst d) \<Longrightarrow> distinct (map fst (dict_set d k v))"
  by (simp add: dict_set_def distinct_update)

lemma dates_matches_loop_0:
  assumes g: "\<forall>m\<in>set ms. group m 1 \<noteq> None"
  shows "\<exists>d'. dates_matches_loop 0 ms d = Inr d' \<and>
           dict_get d' ''billing_period_start'' = or_slot (dict_get d ''billing_period_start'') (slot_value ms 0) \<and>
           dict_get d' ''billing_period_end'' = or_slot (dict_get d ''billing_period_end'') (slot_value ms 1) \<and>
           (\<forall>k. k \<noteq> ''billing_period_start'' \<longrightarrow> k \<noteq> ''billing_period_end'' \<longrightarrow> dict_get d' k = dict_get d k) \<and>
           (distinct (map fst d) \<longrightarrow> distinct (map fst d'))"
proof (cases ms)
  case Nil
  then show ?thesis by (simp add: or_slot_def slot_value_def split: option.splits)
next
  case (Cons m1 ms1)
  with g obtain v1 where v1: "group m1 1 = Some v1" by auto
  show ?thesis
  proof (cases ms1)
    case Nil
    with Cons v1 show ?thesis
      by (auto simp: DATE_KEYS_def or_slot_def slot_value_def dict_get_set distinct_dict_set
               split: option.splits)
  next
    case (Cons m2 ms2)
    with g \<open>ms = m1 # ms1\<close> obtain v2 where v2: "group m2 1 = Some v2" by auto
    from Cons \<open>ms = m1 # ms1\<close> v1 v2 show ?thesis
      by (cases ms2)
         (auto simp: DATE_KEYS_def or_slot_def slot_value_def dict_get_set distinct_dict_set
               split: option.splits)
  qed
qed

lemma date_slot_from_Cons:
  "date_slot_from (p # ps) i text =
     (if i < length (finditer True p text) then slot_value (finditer True p text) i
      else date_slot_from ps i text)"
  by (simp add: date_slot_from_def)

lemma slot_value_None: "\<not> i < length ms \<Longrightarrow> slot_value ms i = None"
  by (simp add: slot_value_def)

lemma slot_value_Some:
  "i < length ms \<Longrightarrow> \<forall>m\<in>set ms. group m 1 \<noteq> None \<Longrightarrow> slot_value ms i \<noteq> None"
  by (auto simp: slot_value_def)

lemma or_slot_assoc: "or_slot (or_slot a b) c = or_slot a (or_slot b c)"
  by (simp add: or_slot_def split: option.splits)

lemma dates_patterns_loop_result:
  assumes "set ps \<subseteq> set DATE_PATTERNS"
  shows "\<exists>d'. dates_patterns_loop ps text d = Inr d' \<and>
           dict_get d' ''billing_period_start'' = or_slot (dict_get d ''billing_period_start'') (date_slot_from ps 0 text) \<and>
           dict_get d' ''billing_period_end'' = or_slot (dict_get d ''billing_period_end'') (date_slot_from ps 1 text) \<and>
           (\<forall>k. k \<noteq> ''billing_period_start'' \<longrightarrow> k \<noteq> ''billing_period_end'' \<longrightarrow> dict_get d' k = dict_get d k) \<and>
           (distinct (map fst d) \<longrightarrow> distinct (map fst d'))"
  using assms
proof (induction ps arbitrary: d)
  case Nil
  then show ?case by (simp add: date_slot_from_def or_slot_def split: option.splits)
next
  case (Cons p ps)
  let ?ms = "finditer True p text"
  from Cons.prems have p: "p \<in> set DATE_PATTERNS" and ps: "set ps \<subseteq> set DATE_PATTERNS" by auto
  have g: "\<forall>m\<in>set ?ms. group m 1 \<noteq> None" using date_pattern_group[OF p] by fastforce
  from dates_matches_loop_0[OF g, of d] obtain d1 where
    1: "dates_matches_loop 0 ?ms d = Inr d1"
    and s1: "dict_get d1 ''billing_period_start'' = or_slot (dict_get d ''billing_period_start'') (slot_value ?ms 0)"
    and e1: "dict_get d1 ''billing_period_end'' = or_slot (dict_get d ''billing_period_end'') (slot_value ?ms 1)"
    and o1: "\<forall>k. k \<noteq> ''billing_period_start'' \<longrightarrow> k \<noteq> ''billing_period_end'' \<longrightarrow> dict_get d1 k = dict_get d k"
    and d1: "distinct (map fst d) \<longrightarrow> distinct (map fst d1)" by blast
  from Cons.IH[OF ps, of d1] obtain d2 where
    2: "dates_patterns_loop ps text d1 = Inr d2"
    and s2: "dict_get d2 ''billing_period_start'' = or_slot (dict_get d1 ''billing_period_start'') (date_slot_from ps 0 text)"
    and e2: "dict_get d2 ''billing_period_end'' = or_slot (dict_get d1 ''billing_period_end'') (date_slot_from ps 1 text)"
    and o2: "\<forall>k. k \<noteq> ''billing_period_start'' \<longrightarrow> k \<noteq> ''billing_period_end'' \<longrightarrow> dict_get d2 k = dict_get d1 k"
    and d2: "distinct (map fst d1) \<longrightarrow> distinct (map fst d2)" by blast
  have a0: "or_slot (slot_value ?ms 0) (date_slot_from ps 0 text) = date_slot_from (p # ps) 0 text"
    using slot_value_Some[OF _ g, of 0] slot_value_None[of 0 ?ms]
    by (auto simp: date_slot_from_Cons or_slot_def split: option.splits)
  have a1: "or_slot (slot_value ?ms 1) (date_slot_from ps 1 text) = date_slot_from (p # ps) 1 text"
    using slot_value_Some[OF _ g, of 1] slot_value_None[of 1 ?ms]
    by (auto simp: date_slot_from_Cons or_slot_def split: option.splits)
  from 1 2 have "dates_patterns_loop (p # ps) text d = Inr d2" by simp
  moreover from s1 s2 a0 have "dict_get d2 ''billing_period_start'' = or_slot (dict_get d ''billing_period_start'') (date_slot_from (p # ps) 0 text)"
    by (simp add: or_slot_assoc)
  moreover from e1 e2 a1 have "dict_get d2 ''billing_period_end'' = or_slot (dict_get d ''billing_period_end'') (date_slot_from (p # ps) 1 text)"
    by (simp add: or_slot_assoc)
  moreover from o1 o2 have "\<forall>k. k \<noteq> ''billing_period_start'' \<longrightarrow> k \<noteq> ''billing_period_end'' \<longrightarrow> dict_get d2 k = dict_get d k" by simp
  moreover from d1 d2 have "distinct (map fst d) \<longrightarrow> distinct (map fst d2)" by simp
  ultimately show ?case by blast
qed

lemma extract_dates_result:
  "\<exists>d. extract_dates text = Inr d \<and>
       dict_get d ''billing_period_start'' = date_slot 0 text \<and>
       dict_get d ''billing_period_end'' = date_slot 1 text \<and>
       (\<forall>k. k \<noteq> ''billing_period_start'' \<longrightarrow> k \<noteq> ''billing_period_end'' \<longrightarrow> dict_get d k = None) \<and>
       distinct (map fst d)"
  using dates_patterns_loop_result[of DATE_PATTERNS _ "[]"]
  by (auto simp: extract_dates_def date_slot_def or_slot_def dict_get_def)

lemma date_slot_value: "date_slot i text = Some v \<Longrightarrow> \<exists>w. v = PyStr w \<and> w \<noteq> []"
proof -
  assume a: "date_slot i text = Some v"
  then obtain p where f: "List.find (\<lambda>p. i < length (finditer True p text)) DATE_PATTERNS = Some p"
    and sv: "slot_value (finditer True p text) i = Some v"
    by (auto simp: date_slot_def date_slot_from_def split: option.splits)
  from f have p: "p \<in> set DATE_PATTERNS" by (auto simp: find_Some_iff)
  from sv have i: "i < length (finditer True p text)" by (auto simp: slot_value_def split: if_splits)
  then have "finditer True p text ! i \<in> set (finditer True p text)" by simp
  from date_pattern_group[OF p this] sv i show ?thesis by (auto simp: slot_value_def)
qed

lemma date_slot_end_start: "date_slot 1 text \<noteq> None \<Longrightarrow> date_slot 0 text \<noteq> None"
proof -
  assume "date_slot 1 text \<noteq> None"
  then obtain p where f: "List.find (\<lambda>p. 1 < length (finditer True p text)) DATE_PATTERNS = Some p"
    by (auto simp: date_slot_def date_slot_from_def split: option.splits)
  then have p: "p \<in> set DATE_PATTERNS" and l: "1 < length (finditer True p text)"
    by (auto simp: find_Some_iff)
  then have "\<exists>q\<in>set DATE_PATTERNS. 0 < length (finditer True q text)"
    by (intro bexI[of _ p]) auto
  then obtain q where q: "List.find (\<lambda>p. 0 < length (finditer True p text)) DATE_PATTERNS = Some q"
    by (metis find_None_iff not_Some_eq)
  then have qs: "q \<in> set DATE_PATTERNS" and ql: "0 < length (finditer True q text)"
    by (auto simp: find_Some_iff)
  then have "finditer True q text ! 0 \<in> set (finditer True q text)" by simp
  from date_pattern_group[OF qs this] q ql show ?thesis
    by (auto simp: date_slot_def date_slot_from_def slot_value_def)
qed

lemma in_dot_comma: "in_class ic [ch CHR ''.'', ch CHR '',''] x \<Longrightarrow> x = 46 \<or> x = 44"
  using ci_eq_digit[of 46 x] ci_eq_digit[of 44 x]
  by (cases ic) (auto simp: in_class_def ch_def item_match_Ch)

lemma amount_char_not_space: "amount_char x \<Longrightarrow> \<not> isspace x"
  by (auto simp: amount_char_def isspace_def)

lemma charp_amount_number: "charp ic amount_number x \<Longrightarrow> amount_char x"
  by (auto simp: amount_number_def seqs_def rep_def star_def opt_def digit_def amount_char_def
           dest: in_digits in_dot_comma)

lemma grp_ok_amount:
  assumes "grp_ok True AMOUNT_RE n v"
  shows "v \<noteq> [] \<and> list_all amount_char v"
proof -
  have ml: "min_len amount_number = 1"
    by (simp add: amount_number_def seqs_def rep_def star_def opt_def digit_def)
  have no: "\<not> grp_ok True amount_number n v"
    by (simp add: amount_number_def seqs_def rep_def star_def opt_def digit_def)
  from assms no have "min_len amount_number \<le> length v \<and> list_all (charp True amount_number) v"
    by (auto simp: AMOUNT_RE_def seqs_def star_def opt_def lits_def list_all_iff)
  with ml charp_amount_number show ?thesis by (auto simp: list_all_iff)
qed

lemma or_else_Some: "v \<noteq> [] \<Longrightarrow> or_else (Some v) d = v"
  by (simp add: or_else_def)

lemma or_else_None: "or_else None d = d"
  by (simp add: or_else_def)

lemma matches_amount_groups:
  assumes "st' \<in> set (matches True AMOUNT_RE (t, []))"
  shows "map_of (snd st') 1 \<noteq> None \<or> map_of (snd st') 2 \<noteq> None"
proof -
  let ?A = "seqs [Lit (of_char CHR ''$''), star (In [Space]), Grp 1 amount_number]"
  let ?B = "seqs [Grp 2 amount_number, star (In [Space]),
                alts (lits ''CLP'') [lits ''USD'', lits ''EUR'',
                                     seqs [lits ''peso'', opt (Lit (of_char CHR ''s''))]]]"
  from assms have "st' \<in> set (matches True ?A (t, [])) \<or> st' \<in> set (matches True ?B (t, []))"
    by (simp add: AMOUNT_RE_def)
  then show ?thesis
  proof
    assume a: "st' \<in> set (matches True ?A (t, []))"
    have "sets_group ?A 1" by (simp add: seqs_def)
    with matches_sets[OF a, of 1] show ?thesis by simp
  next
    assume b: "st' \<in> set (matches True ?B (t, []))"
    have "sets_group ?B 2" by (simp add: seqs_def)
    with matches_sets[OF b, of 2] show ?thesis by simp
  qed
qed

lemma amount_raw_ok:
  assumes "scan True AMOUNT_RE pos s = Some am"
  shows "amount_raw am \<noteq> [] \<and> list_all amount_char (amount_raw am) \<and>
         (amount_raw am = or_else (group am 1) (or_else (group am 2) []))"
proof -
  from scan_Some[OF assms] obtain t st' where m: "st' \<in> set (matches True AMOUNT_RE (t, []))"
    and g: "m_groups am = snd st'" by blast
  from matches_amount_groups[OF m] g have some: "group am 1 \<noteq> None \<or> group am 2 \<noteq> None"
    by (simp add: group_def)
  have ok: "group am n = Some v \<Longrightarrow> v \<noteq> [] \<and> list_all amount_char v" for n v
    using scan_group_ok[OF assms] grp_ok_amount by blast
  have "or_else (group am 1) (or_else (group am 2) []) \<noteq> [] \<and>
        list_all amount_char (or_else (group am 1) (or_else (group am 2) []))"
  proof (cases "group am 1")
    case None
    with some obtain v2 where v2: "group am 2 = Some v2" by auto
    with ok[of 2 v2] None show ?thesis by (simp add: or_else_def)
  next
    case (Some v1)
    with ok[of 1 v1] show ?thesis by (simp add: or_else_def)
  qed
  moreover then have "strip (or_else (group am 1) (or_else (group am 2) [])) =
      or_else (group am 1) (or_else (group am 2) [])"
    by (intro strip_id) (auto simp: list_all_iff dest: amount_char_not_space)
  ultimately show ?thesis by (simp add: amount_raw_def)
qed

lemma folio_pattern_group:
  assumes "p \<in> set folio_patterns" and "scan True p pos s = Some m"
  shows "\<exists>v. group m 1 = Some v \<and> 6 \<le> length v \<and> list_all (\<lambda>x. 48 \<le> x \<and> x \<le> 57) v"
proof -
  from assms(1) have s: "sets_group p 1" by (auto simp: folio_patterns_def folio_tail_def seqs_def)
  from scan_group[OF assms(2) s] obtain v where v: "group m 1 = Some v"
    and ok: "grp_ok True p 1 v" by blast
  have nl: "\<not> grp_ok True (lits w) 1 v" for w
    unfolding lits_def by (induction w) simp_all
  from ok assms(1) nl have "6 \<le> length v \<and> list_all (in_class True [rng CHR ''0'' CHR ''9'']) v"
    by (auto simp: folio_patterns_def folio_tail_def seqs_def rep_min_def star_def digit_def
          list_all_iff)
  with v in_digits show ?thesis by (auto simp: list_all_iff)
qed

lemma rut_pattern_group:
  assumes "scan False rut_pattern pos s = Some m"
  shows "\<exists>v. group m 1 = Some v \<and> v \<noteq> []"
proof -
  have s: "sets_group rut_pattern 1" by (simp add: rut_pattern_def)
  from scan_group[OF assms s] obtain v where v: "group m 1 = Some v"
    and ok: "grp_ok False rut_pattern 1 v" by blast
  from ok have "0 < length v"
    by (auto simp: rut_pattern_def seqs_def rep_def digit_def)
  with v show ?thesis by auto
qed

lemma folio_loop_find:
  "folio_loop ps subject attrs =
     (case List.find (\<lambda>p. search True p subject \<noteq> None) ps of
        None \<Rightarrow> attrs
      | Some p \<Rightarrow> (case search True p subject of
                     None \<Rightarrow> attrs
                   | Some m \<Rightarrow> dict_set attrs ''folio'' (of_group (group m 1))))"
  by (induction ps) (auto split: option.splits)

lemma dict_get_Nil: "dict_get [] k = None"
  by (simp add: dict_get_def)

lemma find_SomeD: "List.find P xs = Some x \<Longrightarrow> x \<in> set xs \<and> P x"
  by (induction xs) (auto split: if_splits)

lemma folio_loop_get:
  "dict_get (folio_loop folio_patterns subject []) k =
     (if k = ''folio'' then folio_of subject else None)"
  by (auto simp: folio_loop_find folio_of_def dict_get_set dict_get_Nil
           split: option.splits dest: find_SomeD)

lemma extract_from_subject_get:
  "dict_get (extract_from_subject subject) k =
     (if k = ''rut_from_subject'' then rut_of subject
      else if k = ''folio'' then folio_of subject else None)"
  by (simp add: extract_from_subject_def Let_def dict_get_set folio_loop_get rut_of_def
           split: option.splits)

lemma distinct_folio_loop: "distinct (map fst (folio_loop ps subject []))"
  by (simp add: folio_loop_find dict_set_def split: option.splits)

lemma distinct_extract_from_subject: "distinct (map fst (extract_from_subject subject))"
  by (auto simp: extract_from_subject_def Let_def distinct_folio_loop distinct_dict_set
           split: option.splits)

lemma folio_of_value: "folio_of subject = Some v \<Longrightarrow> \<exists>w. v = PyStr w \<and> w \<noteq> []"
proof -
  assume "folio_of subject = Some v"
  then obtain p m where p: "p \<in> set folio_patterns" and m: "search True p subject = Some m"
    and v: "v = of_group (group m 1)"
    by (auto simp: folio_of_def split: option.splits dest: find_SomeD)
  from folio_pattern_group[OF p m[unfolded search_def]] v show ?thesis
    by (auto simp: of_group_def)
qed

lemma rut_of_value: "rut_of subject = Some v \<Longrightarrow> \<exists>w. v = PyStr w \<and> w \<noteq> []"
proof -
  assume "rut_of subject = Some v"
  then obtain m where m: "search False rut_pattern subject = Some m"
    and v: "v = of_group (group m 1)"
    by (auto simp: rut_of_def)
  from rut_pattern_group[OF m[unfolded search_def]] v show ?thesis
    by (auto simp: of_group_def)
qed

lemma dict_get_update:
  "distinct (map fst e) \<Longrightarrow>
   dict_get (dict_update d e) k = (case dict_get e k of None \<Rightarrow> dict_get d k | Some v \<Rightarrow> Some v)"
proof (induction e arbitrary: d)
  case Nil
  then show ?case by (simp add: dict_update_def dict_get_def)
next
  case (Cons kv e)
  obtain k' v' where kv: "kv = (k', v')" by (cases kv)
  from Cons.prems kv have d: "distinct (map fst e)" and n: "k' \<notin> fst ` set e" by auto
  have step: "dict_update d (kv # e) = dict_update (dict_set d k' v') e"
    by (simp add: dict_update_def kv)
  from n have none: "dict_get e k' = None" by (simp add: dict_get_def map_of_eq_None_iff)
  have ih: "dict_get (dict_update d (kv # e)) k =
      (case dict_get e k of None \<Rightarrow> dict_get (dict_set d k' v') k | Some v \<Rightarrow> Some v)"
    using Cons.IH[OF d, of "dict_set d k' v'"] step by simp
  show ?case
  proof (cases "k = k'")
    case True
    with ih none kv show ?thesis by (simp add: dict_get_set) (simp add: dict_get_def)
  next
    case False
    then have "dict_get (kv # e) k = dict_get e k" by (simp add: dict_get_def kv)
    with ih False show ?thesis by (simp add: dict_get_set split: option.splits)
  qed
qed

lemma customer_labels_loop_Inr: "\<exists>r. customer_labels_loop text ms = Inr r"
proof (induction ms)
  case Nil
  then show ?case by simp
next
  case (Cons m ms)
  have s: "sets_group CUSTOMER_NUMBER_RE 1" by (simp add: CUSTOMER_NUMBER_RE_def)
  show ?case
  proof (cases "search False CUSTOMER_NUMBER_RE (take 80 (drop (m_end m) text))")
    case None
    with Cons show ?thesis by simp
  next
    case (Some nm)
    from scan_group[OF Some[unfolded search_def] s] obtain v where "group nm 1 = Some v" by blast
    with Some show ?thesis by simp
  qed
qed

lemma extract_customer_number_Inr: "\<exists>r. extract_customer_number text = Inr r"
  by (simp add: extract_customer_number_def customer_labels_loop_Inr)

lemma address_labels_loop_Inr: "\<exists>r. address_labels_loop text ms = Inr r"
proof (induction ms)
  case Nil
  then show ?case by simp
next
  case (Cons m ms)
  have s: "sets_group LINE_RE 1" by (simp add: LINE_RE_def)
  show ?case
  proof (cases "search False LINE_RE (drop (m_end m) text)")
    case None
    with Cons show ?thesis by simp
  next
    case (Some lm)
    from scan_group[OF Some[unfolded search_def] s] obtain v where "group lm 1 = Some v" by blast
    with Some Cons show ?thesis by (simp add: Let_def)
  qed
qed

lemma extract_address_Inr: "\<exists>r. extract_address text = Inr r"
  by (simp add: extract_address_def address_labels_loop_Inr)

lemma extract_lookup:
  "dict_get (extract_attributes_from_email_body subject body) k = attr_of subject body k"
proof -
  let ?c = "combine subject body"
  from extract_dates_result[of ?c] obtain d where d: "extract_dates ?c = Inr d"
    and d0: "dict_get d ''billing_period_start'' = date_slot 0 ?c"
    and d1: "dict_get d ''billing_period_end'' = date_slot 1 ?c"
    and dn: "\<forall>k. k \<noteq> ''billing_period_start'' \<longrightarrow> k \<noteq> ''billing_period_end'' \<longrightarrow> dict_get d k = None"
    and dd: "distinct (map fst d)" by blast
  from extract_customer_number_Inr[of ?c] obtain c where c: "extract_customer_number ?c = Inr c"
    by blast
  from extract_address_Inr[of ?c] obtain a where a: "extract_address ?c = Inr a" by blast
  have eq: "extract_attributes_from_email_body subject body =
     (let a1 = dict_update (dict_update [] (extract_from_subject subject)) d;
          a2 = (if truthy (extract_total_amount ?c)
                then dict_set a1 ''total_amount'' (of_group (extract_total_amount ?c)) else a1);
          a3 = (if truthy c then dict_set a2 ''customer_number'' (of_group c) else a2)
      in if truthy a then dict_set a3 ''address'' (of_group a) else a3)"
    by (simp add: extract_attributes_from_email_body_def extract_attributes_with_def d c a Let_def)
  have base: "dict_get (dict_update (dict_update [] (extract_from_subject subject)) d) k' =
     (if k' = ''billing_period_start'' then date_slot 0 ?c
      else if k' = ''billing_period_end'' then date_slot 1 ?c
      else if k' = ''rut_from_subject'' then rut_of subject
      else if k' = ''folio'' then folio_of subject else None)" for k'
    using d0 d1 dn
    by (simp add: dict_get_update[OF dd] dict_get_update[OF distinct_extract_from_subject]
          extract_from_subject_get dict_get_Nil split: option.splits)
  show ?thesis
    unfolding eq attr_of_def
    by (simp add: Let_def dict_get_set base field_of_def sum_field_def c a)
qed

lemma scan_skip:
  "(\<And>i. i < length pre \<Longrightarrow> matches ic r (drop i (pre @ t), []) = []) \<Longrightarrow>
   scan ic r pos (pre @ t) = scan ic r (pos + length pre) t"
proof (induction pre arbitrary: pos)
  case Nil
  then show ?case by simp
next
  case (Cons x pre)
  from Cons.prems[of 0] have 0: "matches ic r (x # pre @ t, []) = []" by simp
  have "matches ic r (drop i (pre @ t), []) = []" if "i < length pre" for i
    using Cons.prems[of "Suc i"] that by simp
  from Cons.IH[OF this, of "Suc pos"] 0 show ?case by simp
qed

lemma scan_skip_replicate:
  assumes "\<And>s. matches ic r (c # s, []) = []"
  shows "scan ic r pos (replicate n c @ t) = scan ic r (pos + n) t"
proof -
  have "matches ic r (drop i (replicate n c @ t), []) = []" if "i < length (replicate n c)" for i
  proof -
    from that have "n - i = Suc (n - Suc i)" by simp
    then have "replicate (n - i) c = c # replicate (n - Suc i) c" by simp
    with that have "drop i (replicate n c @ t) = c # (replicate (n - Suc i) c @ t)"
      by simp
    with assms show ?thesis by simp
  qed
  from scan_skip[OF this, of pos] show ?thesis by simp
qed

lemma scan_bounds:
  "scan ic r pos s = Some m \<Longrightarrow>
   pos \<le> m_start m \<and> m_start m \<le> m_end m \<and> m_end m \<le> pos + length s"
proof (induction s arbitrary: pos)
  case Nil
  then show ?case by (auto split: list.splits)
next
  case (Cons x xs)
  show ?case
  proof (cases "matches ic r (x # xs, [])")
    case Nil
    with Cons.prems have "scan ic r (Suc pos) xs = Some m" by simp
    from Cons.IH[OF this] show ?thesis by simp
  next
    case (Cons st' sts)
    then have "st' \<in> set (matches ic r (x # xs, []))" by simp
    from matches_length[OF this] have "length (fst st') \<le> Suc (length xs)" by simp
    with Cons Cons.prems show ?thesis by (auto simp: case_prod_beta)
  qed
qed

lemma finditer_from_sorted:
  "sorted_wrt (\<lambda>a b. m_end a \<le> m_start b) (finditer_from ic r pos s) \<and>
   (\<forall>m\<in>set (finditer_from ic r pos s). pos \<le> m_start m)"
proof (induction ic r pos s rule: finditer_from.induct)
  case (1 ic r pos s)
  show ?case
  proof (cases "scan ic r pos s")
    case None
    then show ?thesis by (simp add: finditer_from.simps[of ic r pos s])
  next
    case (Some m0)
    note b = scan_bounds[OF Some]
    show ?thesis
    proof (cases "length (drop (m_end m0 - pos) s) < length s")
      case True
      from "1.IH"[OF Some refl True] b Some True show ?thesis
        by (auto simp: finditer_from.simps[of ic r pos s] Let_def intro: order_trans)
    next
      case False
      with Some b show ?thesis by (simp add: finditer_from.simps[of ic r pos s] Let_def)
    qed
  qed
qed

lemma finditer_sorted: "sorted_wrt (\<lambda>a b. m_end a \<le> m_start b) (finditer ic r text)"
  using finditer_from_sorted by (simp add: finditer_def)

lemma total_labels_loop_find:
  "total_labels_loop text ms =
     (case List.find (\<lambda>m. search True AMOUNT_RE (take 60 (drop (m_end m) text)) \<noteq> None) ms of
        None \<Rightarrow> None
      | Some m \<Rightarrow> map_option amount_raw (search True AMOUNT_RE (take 60 (drop (m_end m) text))))"
proof (induction ms)
  case Nil
  then show ?case by simp
next
  case (Cons m ms)
  show ?case
  proof (cases "search True AMOUNT_RE (take 60 (drop (m_end m) text))")
    case None
    with Cons show ?thesis by simp
  next
    case (Some am)
    from amount_raw_ok[OF Some[unfolded search_def]] have "amount_raw am \<noteq> []" by blast
    with Some show ?thesis by (simp add: Let_def)
  qed
qed

lemma extract_total_amount_find:
  "extract_total_amount text =
     (case List.find (\<lambda>m. search True AMOUNT_RE (take 60 (drop (m_end m) text)) \<noteq> None)
             (finditer True TOTAL_LABELS text) of
        None \<Rightarrow> map_option amount_raw (search True AMOUNT_RE text)
      | Some m \<Rightarrow> map_option amount_raw (search True AMOUNT_RE (take 60 (drop (m_end m) text))))"
proof -
  have fb: "(case search True AMOUNT_RE text of None \<Rightarrow> None
             | Some am \<Rightarrow> (let raw = amount_raw am in if raw \<noteq> [] then Some raw else None)) =
            map_option amount_raw (search True AMOUNT_RE text)"
  proof (cases "search True AMOUNT_RE text")
    case None
    then show ?thesis by simp
  next
    case (Some am)
    from amount_raw_ok[OF Some[unfolded search_def]] have "amount_raw am \<noteq> []" by blast
    with Some show ?thesis by (simp add: Let_def)
  qed
  show ?thesis
    unfolding extract_total_amount_def total_labels_loop_find fb
    by (auto split: option.splits dest: find_SomeD)
qed

lemma item_match_Rng_iff:
  "item_match ic (Rng a b) x \<longleftrightarrow> (\<exists>c. a \<le> c \<and> c \<le> b \<and> (if ic then ci_eq c x else x = c))"
  by (cases ic) (auto simp: item_match.simps list_ex_iff)

lemma item_match_digits: "item_match ic (Rng 48 57) x \<longleftrightarrow> 48 \<le> x \<and> x \<le> 57"
proof
  assume "item_match ic (Rng 48 57) x"
  then obtain c where c: "48 \<le> c" "c \<le> 57" and m: "if ic then ci_eq c x else x = c"
    unfolding item_match_Rng_iff by blast
  from c m ci_eq_digit[of c x] show "48 \<le> x \<and> x \<le> 57" by (cases ic) auto
next
  assume a: "48 \<le> x \<and> x \<le> 57"
  then have "ci_eq x x" by (simp add: ci_eq_def)
  with a show "item_match ic (Rng 48 57) x" unfolding item_match_Rng_iff by auto
qed

lemma ci_eq_letter: "65 \<le> c \<Longrightarrow> c \<le> 122 \<Longrightarrow> \<not> (91 \<le> c \<and> c \<le> 96) \<Longrightarrow> ci_eq c x \<Longrightarrow> letter x"
  unfolding ci_eq_def Let_def lower_def case_fixes_def letter_def
  by (auto split: if_splits)

lemma letter_lower: "letter x \<Longrightarrow> \<exists>c. 97 \<le> c \<and> c \<le> 122 \<and> ci_eq c x"
proof -
  assume l: "letter x"
  have u: "ci_eq (x + 32) x" if "65 \<le> x" "x \<le> 90"
    using that by (simp add: ci_eq_def lower_def)
  have s: "ci_eq x x" by (simp add: ci_eq_def)
  have i: "ci_eq 105 304" "ci_eq 105 305" "ci_eq 115 383" "ci_eq 107 8490"
    by (simp_all add: ci_eq_def lower_def case_fixes_def)
  from l consider "65 \<le> x \<and> x \<le> 90" | "97 \<le> x \<and> x \<le> 122" | "x = 304" | "x = 305" | "x = 383"
    | "x = 8490" unfolding letter_def by blast
  then show ?thesis
  proof cases
    case 1
    with u have "97 \<le> x + 32 \<and> x + 32 \<le> 122 \<and> ci_eq (x + 32) x" by simp
    then show ?thesis by blast
  next
    case 2
    with s show ?thesis by blast
  next
    case 3
    with i(1) show ?thesis by (intro exI[of _ 105]) simp
  next
    case 4
    with i(2) show ?thesis by (intro exI[of _ 105]) simp
  next
    case 5
    with i(3) show ?thesis by (intro exI[of _ 115]) simp
  next
    case 6
    with i(4) show ?thesis by (intro exI[of _ 107]) simp
  qed
qed

lemma ci_eq_lower_upper: "97 \<le> c \<Longrightarrow> c \<le> 122 \<Longrightarrow> ci_eq (c - 32) x = ci_eq c x"
proof -
  assume c: "97 \<le> c" "c \<le> 122"
  then have "lower (c - 32) = c" unfolding lower_def by auto
  moreover from c have "lower c = c" by (simp add: lower_def)
  ultimately show ?thesis by (simp add: ci_eq_def)
qed

lemma item_match_lower: "item_match True (Rng 97 122) x \<longleftrightarrow> letter x"
proof
  assume "item_match True (Rng 97 122) x"
  then obtain c where "97 \<le> c" "c \<le> 122" "ci_eq c x" unfolding item_match_Rng_iff by auto
  then show "letter x" by (intro ci_eq_letter[of c x]) auto
next
  assume "letter x"
  from letter_lower[OF this] show "item_match True (Rng 97 122) x"
    unfolding item_match_Rng_iff by auto
qed

lemma item_match_upper: "item_match True (Rng 65 90) x \<longleftrightarrow> letter x"
proof
  assume "item_match True (Rng 65 90) x"
  then obtain c where "65 \<le> c" "c \<le> 90" "ci_eq c x" unfolding item_match_Rng_iff by auto
  then show "letter x" by (intro ci_eq_letter[of c x]) auto
next
  assume "letter x"
  from letter_lower[OF this] obtain c where c: "97 \<le> c" "c \<le> 122" "ci_eq c x" by blast
  with ci_eq_lower_upper[of c x] have "65 \<le> c - 32 \<and> c - 32 \<le> 90 \<and> ci_eq (c - 32) x" by auto
  then show "item_match True (Rng 65 90) x"
    unfolding item_match_Rng_iff by auto
qed

lemma item_match_Rng_False: "item_match False (Rng a b) x \<longleftrightarrow> a \<le> x \<and> x \<le> b"
  by (simp add: item_match.simps)

lemma in_class_Nil: "in_class ic [] x \<longleftrightarrow> False"
  by (simp add: in_class_def)

lemma in_class_Cons: "in_class ic (i # items) x \<longleftrightarrow> item_match ic i x \<or> in_class ic items x"
  by (simp add: in_class_def)

lemmas ev = cp_def matches_Rep in_class_Nil in_class_Cons item_match_Ch item_match_Space
  item_match_digits item_match_lower item_match_upper item_match_Rng_False letter_def
  ci_eq_def lower_def case_fixes_def
  isspace_def Let_def search_def finditer_def finditer_from.simps group_def strip_def
  or_else_def of_group_def

lemmas pat_defs = DATE_PATTERNS_def TOTAL_LABELS_def CUSTOMER_LABELS_def ADDRESS_LABELS_def
  AMOUNT_RE_def amount_number_def CUSTOMER_NUMBER_RE_def LINE_RE_def folio_patterns_def
  folio_tail_def rut_pattern_def number_or_no_def digit_def ws1_def
  seqs_def lits_def star_def plus_def opt_def rep_def rep_min_def ch_def rng_def

lemma field_of_value: "field_of r = Some v \<Longrightarrow> \<exists>w. v = PyStr w \<and> w \<noteq> []"
  by (auto simp: field_of_def truthy_def of_group_def split: option.splits if_splits)

lemma sum_field_value: "sum_field r = Some v \<Longrightarrow> \<exists>w. v = PyStr w \<and> w \<noteq> []"
  by (auto simp: sum_field_def dest: field_of_value split: sum.splits)

text \<open>
  C8.  No key of the returned dictionary is mapped to an empty string, nor to \<open>None\<close>:
  whatever is stored under a key is a non-empty string, so a field that was not found shows
  only as a missing key.
\<close>

theorem no_empty_values:
  "dict_get (extract_attributes_from_email_body subject body) k = Some v \<Longrightarrow>
   \<exists>w. v = PyStr w \<and> w \<noteq> []"
  unfolding extract_lookup attr_of_def
  by (auto split: if_splits
      dest: folio_of_value rut_of_value date_slot_value field_of_value sum_field_value)

theorem no_empty_values_witness:
  "dict_get (extract_attributes_from_email_body (cp ''Folio: 123456'') []) ''folio''
     = Some (PyStr (cp ''123456'')) \<and>
   (\<exists>w. PyStr (cp ''123456'') = PyStr w \<and> w \<noteq> [])"
proof -
  have h: "dict_get (extract_attributes_from_email_body (cp ''Folio: 123456'') []) ''folio''
     = Some (PyStr (cp ''123456''))"
    unfolding extract_lookup attr_of_def folio_of_def
    by (simp add: pat_defs ev)
  from no_empty_values[OF h] h show ?thesis by simp
qed

text \<open>
  C10.  Whenever the returned dictionary has the key \<open>billing_period_end\<close> it also has
  the key \<open>billing_period_start\<close>.
\<close>

theorem end_implies_start:
  "dict_get (extract_attributes_from_email_body subject body) ''billing_period_end'' \<noteq> None \<Longrightarrow>
   dict_get (extract_attributes_from_email_body subject body) ''billing_period_start'' \<noteq> None"
  unfolding extract_lookup attr_of_def
  by (simp add: date_slot_end_start)

theorem end_implies_start_witness:
  "dict_get (extract_attributes_from_email_body [] (cp ''01/03/2024 al 31/03/2024''))
     ''billing_period_end'' \<noteq> None \<and>
   dict_get (extract_attributes_from_email_body [] (cp ''01/03/2024 al 31/03/2024''))
     ''billing_period_start'' \<noteq> None"
proof -
  have h: "dict_get (extract_attributes_from_email_body [] (cp ''01/03/2024 al 31/03/2024''))
     ''billing_period_end'' \<noteq> None"
    unfolding extract_lookup attr_of_def date_slot_def date_slot_from_def slot_value_def
    by (simp add: pat_defs ev combine_def)
  from end_implies_start[OF h] h show ?thesis by simp
qed

lemma extract_with_fields:
  "\<exists>ds cu a. extract_dates (combine subject body) = Inr ds \<and>
     extract_customer_number (combine subject body) = Inr cu \<and>
     extract_address (combine subject body) = Inr a \<and>
     extract_attributes_from_email_body subject body =
       with_field ''address'' a (with_field ''customer_number'' cu
         (with_field ''total_amount'' (extract_total_amount (combine subject body))
            (dict_update (dict_update [] (extract_from_subject subject)) ds)))"
proof -
  let ?c = "combine subject body"
  from extract_dates_result[of ?c] obtain d where d: "extract_dates ?c = Inr d" by blast
  from extract_customer_number_Inr[of ?c] obtain c where c: "extract_customer_number ?c = Inr c"
    by blast
  from extract_address_Inr[of ?c] obtain a where a: "extract_address ?c = Inr a" by blast
  have "extract_attributes_from_email_body subject body =
       with_field ''address'' a (with_field ''customer_number'' c
         (with_field ''total_amount'' (extract_total_amount ?c)
            (dict_update (dict_update [] (extract_from_subject subject)) d)))"
    by (simp add: extract_attributes_from_email_body_def extract_attributes_with_def d c a Let_def
          with_field_def)
  with d c a show ?thesis by blast
qed

lemma update_at_last: "update_at (st @ [d]) (length st) other = st @ [dict_update d other]"
  by (simp add: update_at_def)

lemma set_at_last: "set_at (st @ [d]) (length st) k v = st @ [dict_set d k v]"
  by (simp add: set_at_def)

lemma extract_attributes_call_eq:
  "extract_attributes_call st subject body =
     (length st, st @ [extract_attributes_from_email_body subject body])"
proof -
  let ?c = "combine subject body"
  from extract_with_fields[of subject body] obtain ds cu a where
    d: "extract_dates ?c = Inr ds" and c: "extract_customer_number ?c = Inr cu"
    and a: "extract_address ?c = Inr a"
    and e: "extract_attributes_from_email_body subject body =
       with_field ''address'' a (with_field ''customer_number'' cu
         (with_field ''total_amount'' (extract_total_amount ?c)
            (dict_update (dict_update [] (extract_from_subject subject)) ds)))" by blast
  show ?thesis
    unfolding e
    by (simp add: extract_attributes_call_def new_dict_def Let_def d c a update_at_last
          set_at_last with_field_def)
qed

text \<open>
  C1.  The aggregator never lets an exception out and always returns a dictionary: the
  result of the model is a dictionary whatever its extractors do.  When a stage raises, the
  result is what had been merged until then: nothing if the subject extractor raises, the
  subject's fields if the date extractor raises, and so on.  With the program's own
  extractors no stage raises, and the result is the merge of all five.
\<close>

theorem extract_attributes_never_raises:
  "(ex_subject subject = Inl e \<longrightarrow>
      extract_attributes_with ex_subject ex_dates ex_total ex_customer ex_address subject body = [])
   \<and> (ex_subject subject = Inr sa \<longrightarrow> ex_dates (combine subject body) = Inl e \<longrightarrow>
      extract_attributes_with ex_subject ex_dates ex_total ex_customer ex_address subject body =
        dict_update [] sa)
   \<and> (ex_subject subject = Inr sa \<longrightarrow> ex_dates (combine subject body) = Inr ds \<longrightarrow>
      ex_total (combine subject body) = Inl e \<longrightarrow>
      extract_attributes_with ex_subject ex_dates ex_total ex_customer ex_address subject body =
        dict_update (dict_update [] sa) ds)
   \<and> (ex_subject subject = Inr sa \<longrightarrow> ex_dates (combine subject body) = Inr ds \<longrightarrow>
      ex_total (combine subject body) = Inr t \<longrightarrow> ex_customer (combine subject body) = Inl e \<longrightarrow>
      extract_attributes_with ex_subject ex_dates ex_total ex_customer ex_address subject body =
        with_field ''total_amount'' t (dict_update (dict_update [] sa) ds))
   \<and> (ex_subject subject = Inr sa \<longrightarrow> ex_dates (combine subject body) = Inr ds \<longrightarrow>
      ex_total (combine subject body) = Inr t \<longrightarrow> ex_customer (combine subject body) = Inr cu \<longrightarrow>
      ex_address (combine subject body) = Inl e \<longrightarrow>
      extract_attributes_with ex_subject ex_dates ex_total ex_customer ex_address subject body =
        with_field ''customer_number'' cu
          (with_field ''total_amount'' t (dict_update (dict_update [] sa) ds)))
   \<and> (ex_subject subject = Inr sa \<longrightarrow> ex_dates (combine subject body) = Inr ds \<longrightarrow>
      ex_total (combine subject body) = Inr t \<longrightarrow> ex_customer (combine subject body) = Inr cu \<longrightarrow>
      ex_address (combine subject body) = Inr a \<longrightarrow>
      extract_attributes_with ex_subject ex_dates ex_total ex_customer ex_address subject body =
        with_field ''address'' a (with_field ''customer_number'' cu
          (with_field ''total_amount'' t (dict_update (dict_update [] sa) ds))))
   \<and> (\<exists>ds' cu' a'.
        extract_dates (combine subject body) = Inr ds' \<and>
        extract_customer_number (combine subject body) = Inr cu' \<and>
        extract_address (combine subject body) = Inr a' \<and>
        extract_attributes_from_email_body subject body =
          with_field ''address'' a' (with_field ''customer_number'' cu'
            (with_field ''total_amount'' (extract_total_amount (combine subject body))
               (dict_update (dict_update [] (extract_from_subject subject)) ds'))))"
  using extract_with_fields[of subject body]
  by (simp add: extract_attributes_with_def Let_def with_field_def)

theorem extract_attributes_never_raises_witness:
  "extract_from_subject (cp ''Folio: 123456'') = [(''folio'', PyStr (cp ''123456''))] \<and>
   extract_dates (combine (cp ''Folio: 123456'') (cp ''01/03/2024'')) =
     Inr [(''billing_period_start'', PyStr (cp ''01/03/2024''))] \<and>
   extract_attributes_with (\<lambda>s. Inr (extract_from_subject s)) extract_dates
       (\<lambda>t. Inl TypeError) extract_customer_number extract_address
       (cp ''Folio: 123456'') (cp ''01/03/2024'') =
     [(''folio'', PyStr (cp ''123456'')), (''billing_period_start'', PyStr (cp ''01/03/2024''))]"
proof -
  have s: "extract_from_subject (cp ''Folio: 123456'') = [(''folio'', PyStr (cp ''123456''))]"
    by (simp add: extract_from_subject_def dict_set_def pat_defs ev)
  have d: "extract_dates (combine (cp ''Folio: 123456'') (cp ''01/03/2024'')) =
     Inr [(''billing_period_start'', PyStr (cp ''01/03/2024''))]"
    by (simp add: extract_dates_def combine_def DATE_KEYS_def dict_get_def dict_set_def
          pat_defs ev)
  have u: "dict_update (dict_update [] [(''folio'', PyStr (cp ''123456''))])
             [(''billing_period_start'', PyStr (cp ''01/03/2024''))] =
           [(''folio'', PyStr (cp ''123456'')), (''billing_period_start'', PyStr (cp ''01/03/2024''))]"
    by (simp add: dict_update_def dict_set_def)
  from extract_attributes_never_raises[where ex_subject = "\<lambda>s. Inr (extract_from_subject s)"
      and subject = "cp ''Folio: 123456''" and body = "cp ''01/03/2024''"
      and ex_dates = extract_dates and ex_total = "\<lambda>t. Inl TypeError"
      and ex_customer = extract_customer_number and ex_address = extract_address
      and e = TypeError and sa = "[(''folio'', PyStr (cp ''123456''))]"
      and ds = "[(''billing_period_start'', PyStr (cp ''01/03/2024''))]",
      THEN conjunct2, THEN conjunct2, THEN conjunct1] s d u
  show ?thesis by simp
qed

text \<open>
  C9.  A call allocates one new dictionary, leaves every dictionary that existed before
  untouched, and fills the new one with a value that depends on \<open>subject\<close> and \<open>body\<close>
  alone.  So two calls on the same input return equal dictionaries, whatever was called in
  between, and a later call does not change what an earlier call returned.
\<close>

theorem extract_attributes_stateless:
  "extract_attributes_call st subject body =
     (length st, st @ [extract_attributes_from_email_body subject body]) \<and>
   (let (a1, st1) = extract_attributes_call st subject body;
        (a2, st2) = extract_attributes_call st1 subject' body';
        (a3, st3) = extract_attributes_call st2 subject body
    in st3 ! a3 = st1 ! a1 \<and> st3 ! a1 = st1 ! a1 \<and> a1 \<noteq> a3 \<and> take (length st) st3 = st)"
  by (simp add: extract_attributes_call_eq nth_append)

lemma combine_take: "combine subject body = take 15000 (subject @ [10, 10] @ body)"
  by (simp add: combine_def Let_def)

lemma dict_get_keys: "dict_get d k \<noteq> None \<longleftrightarrow> k \<in> set (map fst d)"
  by (simp add: dict_get_def map_of_eq_None_iff)

text \<open>
  C2, as stated, fails.  In \<open>01/03/2024 al 31 de marzo de 2024\<close> the numeric pattern
  occurs once and the Spanish long form occurs once, so the first two matches across the
  patterns are these two dates; yet only \<open>billing_period_start\<close> is filled.  The one
  occurrence of the second pattern has index 0, which is the index of the start slot, and
  that slot is taken.
\<close>

theorem dates_union_counterexample:
  "finditer True (DATE_PATTERNS ! 0) (cp ''01/03/2024 al 31 de marzo de 2024'') =
     [\<lparr>m_start = 0, m_end = 10, m_groups = [(1, cp ''01/03/2024'')]\<rparr>] \<and>
   finditer True (DATE_PATTERNS ! 1) (cp ''01/03/2024 al 31 de marzo de 2024'') =
     [\<lparr>m_start = 14, m_end = 33, m_groups = [(1, cp ''31 de marzo de 2024'')]\<rparr>] \<and>
   finditer True (DATE_PATTERNS ! 2) (cp ''01/03/2024 al 31 de marzo de 2024'') = [] \<and>
   extract_dates (cp ''01/03/2024 al 31 de marzo de 2024'') =
     Inr [(''billing_period_start'', PyStr (cp ''01/03/2024''))]"
  by (simp add: extract_dates_def DATE_KEYS_def dict_get_def dict_set_def pat_defs ev)

text \<open>
  C2, amended.  Each slot is filled on its own: \<open>billing_period_start\<close> is the first
  occurrence of the first pattern, in priority order, that occurs at all, and
  \<open>billing_period_end\<close> is the second occurrence of the first pattern, in priority
  order, that occurs at least twice (\<open>date_slot 0\<close> and \<open>date_slot 1\<close>); a slot is
  absent when no pattern qualifies, and there is no other key.  So a later pattern fills
  a slot that the earlier patterns left empty with its own occurrence of that rank, and
  never replaces a value.  In \<open>01/03/2024 y 1 de marzo de 2024 y 2 de abril de 2024\<close>
  the end slot is the second Spanish date, not the first.
\<close>

theorem extract_dates_slots:
  "(\<exists>d. extract_dates text = Inr d \<and>
        dict_get d ''billing_period_start'' = date_slot 0 text \<and>
        dict_get d ''billing_period_end'' = date_slot 1 text \<and>
        set (map fst d) \<subseteq> set DATE_KEYS) \<and>
   extract_dates (cp ''01/03/2024 y 1 de marzo de 2024 y 2 de abril de 2024'') =
     Inr [(''billing_period_start'', PyStr (cp ''01/03/2024'')),
          (''billing_period_end'', PyStr (cp ''2 de abril de 2024''))]"
proof
  from extract_dates_result[of "text"] obtain d where d: "extract_dates text = Inr d"
    and d0: "dict_get d ''billing_period_start'' = date_slot 0 text"
    and d1: "dict_get d ''billing_period_end'' = date_slot 1 text"
    and dn: "\<forall>k. k \<noteq> ''billing_period_start'' \<longrightarrow> k \<noteq> ''billing_period_end'' \<longrightarrow> dict_get d k = None"
    by blast
  have "set (map fst d) \<subseteq> set DATE_KEYS"
  proof
    fix k assume "k \<in> set (map fst d)"
    then have "dict_get d k \<noteq> None" by (simp only: dict_get_keys)
    have "k = ''billing_period_start'' \<or> k = ''billing_period_end''"
    proof (rule ccontr)
      assume "\<not> (k = ''billing_period_start'' \<or> k = ''billing_period_end'')"
      then have "k \<noteq> ''billing_period_start''" and "k \<noteq> ''billing_period_end''" by simp_all
      with dn[rule_format, of k] have "dict_get d k = None" by simp
      with \<open>dict_get d k \<noteq> None\<close> show False by simp
    qed
    then show "k \<in> set DATE_KEYS" unfolding DATE_KEYS_def by (elim disjE) simp_all
  qed
  with d d0 d1 show "\<exists>d. extract_dates text = Inr d \<and>
        dict_get d ''billing_period_start'' = date_slot 0 text \<and>
        dict_get d ''billing_period_end'' = date_slot 1 text \<and>
        set (map fst d) \<subseteq> set DATE_KEYS" by (intro exI[of _ d]) simp
next
  show "extract_dates (cp ''01/03/2024 y 1 de marzo de 2024 y 2 de abril de 2024'') =
     Inr [(''billing_period_start'', PyStr (cp ''01/03/2024'')),
          (''billing_period_end'', PyStr (cp ''2 de abril de 2024''))]"
    by (simp add: extract_dates_def DATE_KEYS_def dict_get_def dict_set_def pat_defs ev)
qed

text \<open>
  C3, as stated, fails.  A subject of 15,000 letters \<open>x\<close> followed by \<open>Folio: 123456\<close>
  makes a concatenation longer than the cap whose first 15,000 characters are all \<open>x\<close>;
  the folio is found all the same, past the cap, because the subject extractor is given
  the whole subject.
\<close>

theorem cap_counterexample:
  "15000 < length ((replicate 15000 120 @ cp ''Folio: 123456'') @ [10, 10] @ []) \<and>
   take 15000 ((replicate 15000 120 @ cp ''Folio: 123456'') @ [10, 10] @ []) =
     replicate 15000 120 \<and>
   dict_get (extract_attributes_from_email_body (replicate 15000 120 @ cp ''Folio: 123456'') [])
     ''folio'' = Some (PyStr (cp ''123456''))"
proof -
  let ?p = "Seq (lits ''folio'') folio_tail"
  have n: "matches True ?p (120 # s, []) = []" for s
    by (simp add: pat_defs ev)
  have e: "scan True ?p 15000 (cp ''Folio: 123456'') =
      Some \<lparr>m_start = 15000, m_end = 15013, m_groups = [(1, cp ''123456'')]\<rparr>"
    by (simp add: pat_defs ev)
  have k: "search True ?p (replicate 15000 120 @ cp ''Folio: 123456'') =
      Some \<lparr>m_start = 15000, m_end = 15013, m_groups = [(1, cp ''123456'')]\<rparr>"
    unfolding search_def scan_skip_replicate[OF n] using e by simp
  have "folio_of (replicate 15000 120 @ cp ''Folio: 123456'') = Some (PyStr (cp ''123456''))"
    unfolding folio_of_def folio_patterns_def
    by (simp add: k group_def of_group_def)
  then show ?thesis
    unfolding extract_lookup attr_of_def by (simp add: cp_def)
qed

text \<open>
  C3, amended.  The five fields of the body pass depend only on the first 15,000
  characters of \<open>subject + "\n\n" + body\<close>: two inputs whose concatenations agree there
  get the same value, or the same absence, for each of them.  \<open>folio\<close> and
  \<open>rut_from_subject\<close> are what the subject extractor finds in the whole subject.
\<close>

theorem cap_body_fields:
  assumes "take 15000 (subject @ [10, 10] @ body) = take 15000 (subject' @ [10, 10] @ body')"
    and "k \<in> set [''billing_period_start'', ''billing_period_end'', ''total_amount'',
                  ''customer_number'', ''address'']"
  shows "dict_get (extract_attributes_from_email_body subject body) k =
           dict_get (extract_attributes_from_email_body subject' body') k \<and>
         dict_get (extract_attributes_from_email_body subject body) ''folio'' =
           dict_get (extract_from_subject subject) ''folio'' \<and>
         dict_get (extract_attributes_from_email_body subject body) ''rut_from_subject'' =
           dict_get (extract_from_subject subject) ''rut_from_subject''"
proof -
  from assms(1) have c: "combine subject body = combine subject' body'"
    by (simp only: combine_take)
  from assms(2) c show ?thesis
    unfolding extract_lookup attr_of_def extract_from_subject_get by auto
qed

lemma finditer_replicate_none:
  assumes n: "\<And>s. matches ic r (c # s, []) = []"
    and e: "scan ic r k t = None"
  shows "finditer ic r (replicate k c @ t) = []"
  unfolding finditer_def finditer_from.simps[of ic r 0 "replicate k c @ t"]
    scan_skip_replicate[of ic r c, OF n]
  using e by simp

text \<open>
  An instance of C3 at the cap: the subject has 14,998 letters \<open>x\<close>, so that the
  concatenation reaches 15,000 characters with the two line breaks, and the whole body
  lies past the cap.  Bodies with different amounts and dates give the same fields, here
  none at all, although the body read on its own has the amount \<open>5\<close>.
\<close>

theorem cap_body_fields_witness:
  "15000 < length (replicate 14998 120 @ [10, 10] @ cp ''Total: $5'') \<and>
   take 15000 (replicate 14998 120 @ [10, 10] @ cp ''Total: $5'') =
     take 15000 (replicate 14998 120 @ [10, 10] @ cp ''Total: $9 1/2/24'') \<and>
   dict_get (extract_attributes_from_email_body (replicate 14998 120) (cp ''Total: $5''))
       ''total_amount'' =
     dict_get (extract_attributes_from_email_body (replicate 14998 120) (cp ''Total: $9 1/2/24''))
       ''total_amount'' \<and>
   dict_get (extract_attributes_from_email_body (replicate 14998 120) (cp ''Total: $5''))
       ''total_amount'' = None \<and>
   extract_total_amount ([10, 10] @ cp ''Total: $5'') = Some (cp ''5'')"
proof -
  let ?S = "replicate 14998 120"
  have l: "15000 < length (?S @ [10, 10] @ cp ''Total: $5'')" by (simp add: cp_def)
  have h: "take 15000 (?S @ [10, 10] @ cp ''Total: $5'') =
     take 15000 (?S @ [10, 10] @ cp ''Total: $9 1/2/24'')" by simp
  have m: "''total_amount'' \<in> set [''billing_period_start'', ''billing_period_end'',
      ''total_amount'', ''customer_number'', ''address'']" by simp
  note eq = cap_body_fields[OF h m, THEN conjunct1]
  have c: "combine ?S (cp ''Total: $5'') = ?S @ [10, 10]"
    unfolding combine_take by simp
  have nl: "matches True TOTAL_LABELS (120 # s, []) = []" for s
    by (simp add: pat_defs ev)
  have na: "matches True AMOUNT_RE (120 # s, []) = []" for s
    by (simp add: pat_defs ev)
  have el: "scan True TOTAL_LABELS 14998 [10, 10] = None"
    by (simp add: pat_defs ev)
  have ea: "scan True AMOUNT_RE 14998 [10, 10] = None"
    by (simp add: pat_defs ev)
  have fl: "finditer True TOTAL_LABELS (?S @ [10, 10]) = []"
    by (rule finditer_replicate_none[OF nl el])
  have fa: "search True AMOUNT_RE (?S @ [10, 10]) = None"
    unfolding search_def scan_skip_replicate[of True AMOUNT_RE 120, OF na] using ea by simp
  have "extract_total_amount (?S @ [10, 10]) = None"
    unfolding extract_total_amount_find fl fa by simp
  then have z: "dict_get (extract_attributes_from_email_body ?S (cp ''Total: $5''))
       ''total_amount'' = None"
    unfolding extract_lookup attr_of_def c by (simp add: field_of_def truthy_def)
  have u: "extract_total_amount ([10, 10] @ cp ''Total: $5'') = Some (cp ''5'')"
    by (simp add: extract_total_amount_def amount_raw_def pat_defs ev)
  from l h eq z u show ?thesis by (intro conjI)
qed

lemma less_cases_4: "i < 4 \<Longrightarrow> i = 0 \<or> i = 1 \<or> i = 2 \<or> i = (3::nat)"
  by arith

lemma amount_at:
  "\<exists>rest. matches True AMOUNT_RE (cp ''12.500 CLP'' @ post, []) = (post, [(2, cp ''12.500'')]) # rest"
  by (simp add: pat_defs ev)

lemma scan_amount_at:
  "scan True AMOUNT_RE pos (cp ''12.500 CLP'' @ post) =
     Some \<lparr>m_start = pos, m_end = pos + 10, m_groups = [(2, cp ''12.500'')]\<rparr>"
  using amount_at[of post] by (auto simp: cp_def)

lemma amount_raw_12500:
  "amount_raw \<lparr>m_start = a, m_end = b, m_groups = [(2, cp ''12.500'')]\<rparr> = cp ''12.500''"
  by (simp add: amount_raw_def ev)

lemma fallback_contains:
  assumes t: "text = pre @ cp ''12.500 CLP'' @ post"
    and l: "List.find (\<lambda>m. search True AMOUNT_RE (take 60 (drop (m_end m) text)) \<noteq> None)
              (finditer True TOTAL_LABELS text) = None"
    and n: "\<forall>i<length pre. matches True AMOUNT_RE (drop i text, []) = []"
  shows "extract_total_amount text = Some (cp ''12.500'')"
proof -
  have "matches True AMOUNT_RE (drop i (pre @ cp ''12.500 CLP'' @ post), []) = []"
    if "i < length pre" for i
    using n that t by simp
  from scan_skip[OF this, of 0]
  have "search True AMOUNT_RE text =
      Some \<lparr>m_start = length pre, m_end = length pre + 10, m_groups = [(2, cp ''12.500'')]\<rparr>"
    unfolding search_def t by (simp add: scan_amount_at)
  with l show ?thesis
    unfolding extract_total_amount_find by (simp add: amount_raw_12500)
qed

text \<open>
  C4.  The label occurrences are the successive non-overlapping matches of the label
  pattern, from left to right.  When \<open>lm\<close> is the first of them whose window (the 60
  characters after the label) holds a currency amount, the result is the first amount in
  that window: group 1 (after \<open>$\<close>) or group 2 (before the currency marker) as
  matched, made of digits, dots and commas only.  The body \<open>Total a pagar: $45.990\<close>
  gives \<open>45.990\<close>, and \<open>Total: 1.234,50 pesos\<close> gives \<open>1.234,50\<close>.
\<close>

theorem total_amount_labelled:
  "(List.find (\<lambda>m. search True AMOUNT_RE (take 60 (drop (m_end m) text)) \<noteq> None)
        (finditer True TOTAL_LABELS text) = Some lm \<longrightarrow>
      (\<exists>am. search True AMOUNT_RE (take 60 (drop (m_end lm) text)) = Some am \<and>
            extract_total_amount text = Some (amount_raw am) \<and>
            amount_raw am = or_else (group am 1) (or_else (group am 2) []) \<and>
            amount_raw am \<noteq> [] \<and> list_all amount_char (amount_raw am)))
   \<and> sorted_wrt (\<lambda>a b. m_end a \<le> m_start b) (finditer True TOTAL_LABELS text)
   \<and> extract_total_amount (cp ''Total a pagar: $45.990'') = Some (cp ''45.990'')
   \<and> dict_get (extract_attributes_from_email_body [] (cp ''Total a pagar: $45.990''))
         ''total_amount'' = Some (PyStr (cp ''45.990''))
   \<and> extract_total_amount (cp ''Total: 1.234,50 pesos'') = Some (cp ''1.234,50'')"
proof (intro conjI impI)
  assume f: "List.find (\<lambda>m. search True AMOUNT_RE (take 60 (drop (m_end m) text)) \<noteq> None)
        (finditer True TOTAL_LABELS text) = Some lm"
  from find_SomeD[OF f] obtain am where
    am: "search True AMOUNT_RE (take 60 (drop (m_end lm) text)) = Some am" by auto
  from f am have "extract_total_amount text = Some (amount_raw am)"
    unfolding extract_total_amount_find by simp
  moreover note am
  moreover note amount_raw_ok[OF am[unfolded search_def], THEN conjunct1]
  moreover note amount_raw_ok[OF am[unfolded search_def], THEN conjunct2, THEN conjunct1]
  moreover note amount_raw_ok[OF am[unfolded search_def], THEN conjunct2, THEN conjunct2]
  ultimately
  show "\<exists>am. search True AMOUNT_RE (take 60 (drop (m_end lm) text)) = Some am \<and>
            extract_total_amount text = Some (amount_raw am) \<and>
            amount_raw am = or_else (group am 1) (or_else (group am 2) []) \<and>
            amount_raw am \<noteq> [] \<and> list_all amount_char (amount_raw am)"
    by blast
next
  show "sorted_wrt (\<lambda>a b. m_end a \<le> m_start b) (finditer True TOTAL_LABELS text)"
    by (rule finditer_sorted)
next
  show "extract_total_amount (cp ''Total a pagar: $45.990'') = Some (cp ''45.990'')"
    by (simp add: extract_total_amount_def amount_raw_def pat_defs ev)
next
  have "extract_total_amount (combine [] (cp ''Total a pagar: $45.990'')) = Some (cp ''45.990'')"
    by (simp add: extract_total_amount_def amount_raw_def combine_def pat_defs ev)
  then show "dict_get (extract_attributes_from_email_body [] (cp ''Total a pagar: $45.990''))
         ''total_amount'' = Some (PyStr (cp ''45.990''))"
    unfolding extract_lookup attr_of_def
    by (simp add: field_of_def truthy_def of_group_def cp_def)
next
  show "extract_total_amount (cp ''Total: 1.234,50 pesos'') = Some (cp ''1.234,50'')"
    by (simp add: extract_total_amount_def amount_raw_def pat_defs ev)
qed

text \<open>
  An instance of C4 with two label occurrences.  The first \<open>Total:\<close> is followed by
  sixty dots, so its window holds no amount although \<open>$7\<close> comes right after it; the
  second \<open>Total:\<close> has \<open>$5\<close> in its window, and \<open>5\<close> is the result.
\<close>

theorem total_amount_labelled_witness:
  "List.find (\<lambda>m. search True AMOUNT_RE (take 60 (drop (m_end m) (cp ''Total: ............................................................$7 Total: $5''))) \<noteq> None)
        (finditer True TOTAL_LABELS (cp ''Total: ............................................................$7 Total: $5'')) =
     Some \<lparr>m_start = 70, m_end = 77, m_groups = []\<rparr> \<and>
   finditer True TOTAL_LABELS (cp ''Total: ............................................................$7 Total: $5'') =
     [\<lparr>m_start = 0, m_end = 7, m_groups = []\<rparr>, \<lparr>m_start = 70, m_end = 77, m_groups = []\<rparr>] \<and>
   search True AMOUNT_RE (take 60 (drop 7 (cp ''Total: ............................................................$7 Total: $5''))) = None \<and>
   extract_total_amount (cp ''Total: ............................................................$7 Total: $5'') = Some (cp ''5'')"
proof -
  let ?T = "cp ''Total: ............................................................$7 Total: $5''"
  have f: "finditer True TOTAL_LABELS ?T =
     [\<lparr>m_start = 0, m_end = 7, m_groups = []\<rparr>, \<lparr>m_start = 70, m_end = 77, m_groups = []\<rparr>]"
    by (simp add: pat_defs ev)
  have w1: "search True AMOUNT_RE (take 60 (drop 7 ?T)) = None"
    by (simp add: pat_defs ev)
  have w2: "search True AMOUNT_RE (take 60 (drop 77 ?T)) =
      Some \<lparr>m_start = 0, m_end = 2, m_groups = [(1, cp ''5'')]\<rparr>"
    by (simp add: pat_defs ev)
  have h: "List.find (\<lambda>m. search True AMOUNT_RE (take 60 (drop (m_end m) ?T)) \<noteq> None)
        (finditer True TOTAL_LABELS ?T) = Some \<lparr>m_start = 70, m_end = 77, m_groups = []\<rparr>"
    unfolding f by (simp add: w1 w2)
  from total_amount_labelled[of ?T "\<lparr>m_start = 70, m_end = 77, m_groups = []\<rparr>",
      THEN conjunct1, THEN mp, OF h]
  obtain am where a: "search True AMOUNT_RE (take 60 (drop 77 ?T)) = Some am"
    and e: "extract_total_amount ?T = Some (amount_raw am)" by auto
  from a w2 have "am = \<lparr>m_start = 0, m_end = 2, m_groups = [(1, cp ''5'')]\<rparr>" by simp
  then have "amount_raw am = cp ''5''" by (simp add: amount_raw_def ev)
  with e have r: "extract_total_amount ?T = Some (cp ''5'')" by simp
  from h f w1 r show ?thesis by (intro conjI)
qed

text \<open>
  C5, as stated, fails in its example.  \<open>Abono $5.000, saldo 12.500 CLP\<close> has no
  total-amount label and contains \<open>12.500 CLP\<close>, but the fallback takes the first
  currency amount of the text, which is \<open>5.000\<close>.
\<close>

theorem total_amount_fallback_counterexample:
  "finditer True TOTAL_LABELS (cp ''Abono $5.000, saldo 12.500 CLP'') = [] \<and>
   cp ''Abono $5.000, saldo 12.500 CLP'' = cp ''Abono $5.000, saldo '' @ cp ''12.500 CLP'' \<and>
   extract_total_amount (cp ''Abono $5.000, saldo 12.500 CLP'') = Some (cp ''5.000'') \<and>
   dict_get (extract_attributes_from_email_body [] (cp ''Abono $5.000, saldo 12.500 CLP''))
     ''total_amount'' = Some (PyStr (cp ''5.000''))"
proof (intro conjI)
  show "finditer True TOTAL_LABELS (cp ''Abono $5.000, saldo 12.500 CLP'') = []"
    by (simp add: pat_defs ev)
next
  show "cp ''Abono $5.000, saldo 12.500 CLP'' = cp ''Abono $5.000, saldo '' @ cp ''12.500 CLP''"
    by (simp add: cp_def)
next
  show "extract_total_amount (cp ''Abono $5.000, saldo 12.500 CLP'') = Some (cp ''5.000'')"
    by (simp add: extract_total_amount_def amount_raw_def pat_defs ev)
next
  have "extract_total_amount (combine [] (cp ''Abono $5.000, saldo 12.500 CLP'')) =
      Some (cp ''5.000'')"
    by (simp add: extract_total_amount_def amount_raw_def combine_def pat_defs ev)
  then show "dict_get (extract_attributes_from_email_body [] (cp ''Abono $5.000, saldo 12.500 CLP''))
     ''total_amount'' = Some (PyStr (cp ''5.000''))"
    unfolding extract_lookup attr_of_def
    by (simp add: field_of_def truthy_def of_group_def cp_def)
qed

text \<open>
  C5, amended.  When no label occurrence has a currency amount in its window, the result
  is the first currency amount of the whole text, if there is one.  A text that contains
  \<open>12.500 CLP\<close>, with no labelled amount and no currency amount starting before it,
  gives \<open>12.500\<close>, whatever follows; so does the body \<open>Su pago: 12.500 CLP\<close>.
\<close>

theorem total_amount_fallback:
  "(List.find (\<lambda>m. search True AMOUNT_RE (take 60 (drop (m_end m) text)) \<noteq> None)
        (finditer True TOTAL_LABELS text) = None \<longrightarrow>
      extract_total_amount text = map_option amount_raw (search True AMOUNT_RE text))
   \<and> (text = pre @ cp ''12.500 CLP'' @ post \<longrightarrow>
      List.find (\<lambda>m. search True AMOUNT_RE (take 60 (drop (m_end m) text)) \<noteq> None)
        (finditer True TOTAL_LABELS text) = None \<longrightarrow>
      (\<forall>i<length pre. matches True AMOUNT_RE (drop i text, []) = []) \<longrightarrow>
      extract_total_amount text = Some (cp ''12.500''))
   \<and> extract_total_amount (cp ''Su pago: 12.500 CLP'') = Some (cp ''12.500'')
   \<and> dict_get (extract_attributes_from_email_body [] (cp ''Su pago: 12.500 CLP''))
         ''total_amount'' = Some (PyStr (cp ''12.500''))"
proof (intro conjI impI)
  assume "List.find (\<lambda>m. search True AMOUNT_RE (take 60 (drop (m_end m) text)) \<noteq> None)
        (finditer True TOTAL_LABELS text) = None"
  then show "extract_total_amount text = map_option amount_raw (search True AMOUNT_RE text)"
    unfolding extract_total_amount_find by simp
next
  assume "text = pre @ cp ''12.500 CLP'' @ post"
    and "List.find (\<lambda>m. search True AMOUNT_RE (take 60 (drop (m_end m) text)) \<noteq> None)
        (finditer True TOTAL_LABELS text) = None"
    and "\<forall>i<length pre. matches True AMOUNT_RE (drop i text, []) = []"
  then show "extract_total_amount text = Some (cp ''12.500'')"
    by (rule fallback_contains)
next
  show "extract_total_amount (cp ''Su pago: 12.500 CLP'') = Some (cp ''12.500'')"
    by (simp add: extract_total_amount_def amount_raw_def pat_defs ev)
next
  have "extract_total_amount (combine [] (cp ''Su pago: 12.500 CLP'')) = Some (cp ''12.500'')"
    by (simp add: extract_total_amount_def amount_raw_def combine_def pat_defs ev)
  then show "dict_get (extract_attributes_from_email_body [] (cp ''Su pago: 12.500 CLP''))
         ''total_amount'' = Some (PyStr (cp ''12.500''))"
    unfolding extract_lookup attr_of_def
    by (simp add: field_of_def truthy_def of_group_def cp_def)
qed

text \<open>
  An instance of C5 in which a label does occur: \<open>Total:\<close> has no amount in its
  window, and the result is the first amount of the whole text, which stands before it.
\<close>

theorem total_amount_fallback_witness:
  "finditer True TOTAL_LABELS (cp ''Son 12.500 CLP. Total: luego'') = [\<lparr>m_start = 16, m_end = 23, m_groups = []\<rparr>] \<and>
   List.find (\<lambda>m. search True AMOUNT_RE (take 60 (drop (m_end m) (cp ''Son 12.500 CLP. Total: luego''))) \<noteq> None)
        (finditer True TOTAL_LABELS (cp ''Son 12.500 CLP. Total: luego'')) = None \<and>
   cp ''Son 12.500 CLP. Total: luego'' = cp ''Son '' @ cp ''12.500 CLP'' @ cp ''. Total: luego'' \<and>
   matches True AMOUNT_RE (drop 0 (cp ''Son 12.500 CLP. Total: luego''), []) = [] \<and>
   matches True AMOUNT_RE (drop 1 (cp ''Son 12.500 CLP. Total: luego''), []) = [] \<and>
   matches True AMOUNT_RE (drop 2 (cp ''Son 12.500 CLP. Total: luego''), []) = [] \<and>
   matches True AMOUNT_RE (drop 3 (cp ''Son 12.500 CLP. Total: luego''), []) = [] \<and>
   extract_total_amount (cp ''Son 12.500 CLP. Total: luego'') = Some (cp ''12.500'') \<and>
   map_option amount_raw (search True AMOUNT_RE (cp ''Son 12.500 CLP. Total: luego'')) = Some (cp ''12.500'')"
proof -
  let ?T = "cp ''Son 12.500 CLP. Total: luego''"
  have f: "finditer True TOTAL_LABELS ?T = [\<lparr>m_start = 16, m_end = 23, m_groups = []\<rparr>]"
    by (simp add: pat_defs ev)
  have w: "search True AMOUNT_RE (take 60 (drop 23 ?T)) = None"
    by (simp add: pat_defs ev)
  have l: "List.find (\<lambda>m. search True AMOUNT_RE (take 60 (drop (m_end m) ?T)) \<noteq> None)
        (finditer True TOTAL_LABELS ?T) = None"
    unfolding f by (simp add: w)
  have t: "?T = cp ''Son '' @ cp ''12.500 CLP'' @ cp ''. Total: luego''" by (simp add: cp_def)
  have n: "\<forall>i<length (cp ''Son ''). matches True AMOUNT_RE (drop i ?T, []) = []"
  proof (intro allI impI)
    fix i assume "i < length (cp ''Son '')"
    then have "i < 4" by (simp add: cp_def)
    from less_cases_4[OF this] show "matches True AMOUNT_RE (drop i ?T, []) = []"
      by (elim disjE) (simp_all add: pat_defs ev)
  qed
  note th = total_amount_fallback[of ?T "cp ''Son ''" "cp ''. Total: luego''"]
  from th[THEN conjunct2, THEN conjunct1, THEN mp, OF t, THEN mp, OF l, THEN mp, OF n]
  have r: "extract_total_amount ?T = Some (cp ''12.500'')" .
  from th[THEN conjunct1, THEN mp, OF l] r
  have "map_option amount_raw (search True AMOUNT_RE ?T) = Some (cp ''12.500'')" by simp
  moreover have l4: "length (cp ''Son '') = 4" by (simp add: cp_def)
  from n[rule_format, of 0] n[rule_format, of 1] n[rule_format, of 2] n[rule_format, of 3]
  have "matches True AMOUNT_RE (drop 0 ?T, []) = []"
    and "matches True AMOUNT_RE (drop 1 ?T, []) = []"
    and "matches True AMOUNT_RE (drop 2 ?T, []) = []"
    and "matches True AMOUNT_RE (drop 3 ?T, []) = []" unfolding l4 by simp_all
  moreover note f l t r
  ultimately show ?thesis by (intro conjI)
qed

lemma folio_at:
  assumes "post = [] \<or> \<not> (48 \<le> hd post \<and> hd post \<le> 57)"
  shows "\<exists>rest. matches True (Seq (lits ''folio'') folio_tail) (cp ''Folio: 123456'' @ post, []) =
           (post, [(1, cp ''123456'')]) # rest"
proof (cases post)
  case Nil
  then show ?thesis by (simp add: pat_defs ev)
next
  case (Cons x xs)
  with assms consider "x < 48" | "57 < x" by fastforce
  then show ?thesis
  proof cases
    case 1
    with Cons show ?thesis by (simp add: pat_defs ev)
  next
    case 2
    with Cons show ?thesis by (simp add: pat_defs ev)
  qed
qed

lemma scan_folio_at:
  assumes "post = [] \<or> \<not> (48 \<le> hd post \<and> hd post \<le> 57)"
  shows "scan True (Seq (lits ''folio'') folio_tail) pos (cp ''Folio: 123456'' @ post) =
     Some \<lparr>m_start = pos, m_end = pos + 13, m_groups = [(1, cp ''123456'')]\<rparr>"
  using folio_at[OF assms] by (auto simp: cp_def)

lemma folio_patterns_0: "folio_patterns ! 0 = Seq (lits ''folio'') folio_tail"
  by (simp add: folio_patterns_def)

lemma folio_contains:
  assumes t: "subject = pre @ cp ''Folio: 123456'' @ post"
    and n: "\<forall>i<length pre. matches True (folio_patterns ! 0) (drop i subject, []) = []"
    and p: "post = [] \<or> \<not> (48 \<le> hd post \<and> hd post \<le> 57)"
  shows "folio_of subject = Some (PyStr (cp ''123456''))"
proof -
  let ?p = "Seq (lits ''folio'') folio_tail"
  have "matches True ?p (drop i (pre @ cp ''Folio: 123456'' @ post), []) = []"
    if "i < length pre" for i
    using n that t by (simp add: folio_patterns_0)
  from scan_skip[OF this, of 0]
  have s: "search True ?p subject =
      Some \<lparr>m_start = length pre, m_end = length pre + 13, m_groups = [(1, cp ''123456'')]\<rparr>"
    unfolding search_def t by (simp add: scan_folio_at[OF p])
  show ?thesis
    unfolding folio_of_def folio_patterns_def
    by (simp add: s group_def of_group_def)
qed

text \<open>
  C6.  The address example of the specification holds, but the extractor does not stay on
  the line of the label: the line pattern is searched for, not matched at the start of the
  text after the label, so when fewer than 5 characters remain on the label's line the
  search moves on and returns text from a later line.
\<close>

theorem address_leaves_the_line:
  "extract_address (cp ''Direcci'' @ [243] @ cp ''n: abc\<newline>Otra linea larga'') =
     Inr (Some (cp ''Otra linea larga'')) \<and>
   dict_get (extract_attributes_from_email_body []
       (cp ''Direcci'' @ [243] @ cp ''n: abc\<newline>Otra linea larga'')) ''address'' =
     Some (PyStr (cp ''Otra linea larga'')) \<and>
   extract_address
       (cp ''Direcci'' @ [243] @ cp ''n: Av. Siempre Viva 742, Springfield\<newline>Otro texto'') =
     Inr (Some (cp ''Av. Siempre Viva 742, Springfield''))"
proof (intro conjI)
  show "extract_address (cp ''Direcci'' @ [243] @ cp ''n: abc\<newline>Otra linea larga'') =
     Inr (Some (cp ''Otra linea larga''))"
    by (simp add: extract_address_def re_sub_def pat_defs ev)
next
  have "extract_address (combine [] (cp ''Direcci'' @ [243] @ cp ''n: abc\<newline>Otra linea larga'')) =
     Inr (Some (cp ''Otra linea larga''))"
    by (simp add: extract_address_def re_sub_def combine_def pat_defs ev)
  then show "dict_get (extract_attributes_from_email_body []
       (cp ''Direcci'' @ [243] @ cp ''n: abc\<newline>Otra linea larga'')) ''address'' =
     Some (PyStr (cp ''Otra linea larga''))"
    unfolding extract_lookup attr_of_def
    by (simp add: sum_field_def field_of_def truthy_def of_group_def cp_def)
next
  show "extract_address
       (cp ''Direcci'' @ [243] @ cp ''n: Av. Siempre Viva 742, Springfield\<newline>Otro texto'') =
     Inr (Some (cp ''Av. Siempre Viva 742, Springfield''))"
    by (simp add: extract_address_def re_sub_def pat_defs ev)
qed

text \<open>
  C7, as stated, fails in its example.  The subject \<open>Folio: 654321 Folio: 123456\<close>
  contains \<open>Folio: 123456\<close>, but the folio is that of the first match, \<open>654321\<close>.
\<close>

theorem folio_contains_counterexample:
  "cp ''Folio: 654321 Folio: 123456'' = cp ''Folio: 654321 '' @ cp ''Folio: 123456'' \<and>
   extract_from_subject (cp ''Folio: 654321 Folio: 123456'') =
     [(''folio'', PyStr (cp ''654321''))] \<and>
   dict_get (extract_attributes_from_email_body (cp ''Folio: 654321 Folio: 123456'') [])
     ''folio'' = Some (PyStr (cp ''654321''))"
proof -
  have a: "cp ''Folio: 654321 Folio: 123456'' = cp ''Folio: 654321 '' @ cp ''Folio: 123456''"
    by (simp add: cp_def)
  have b: "extract_from_subject (cp ''Folio: 654321 Folio: 123456'') =
     [(''folio'', PyStr (cp ''654321''))]"
    by (simp add: extract_from_subject_def dict_set_def pat_defs ev)
  have "dict_get (extract_attributes_from_email_body (cp ''Folio: 654321 Folio: 123456'') [])
     ''folio'' = dict_get (extract_from_subject (cp ''Folio: 654321 Folio: 123456'')) ''folio''"
    by (simp add: extract_lookup attr_of_def extract_from_subject_get)
  also have "\<dots> = Some (PyStr (cp ''654321''))"
    unfolding b by (simp add: dict_get_def)
  finally show ?thesis using a b by (intro conjI)
qed

text \<open>
  C7, amended.  The folio is group 1 of the first match of the first of the four patterns,
  in their fixed order, that matches anywhere in the subject, whatever the case of the
  label; it is a run of at least six digits; when no pattern matches there is no
  \<open>folio\<close> key.  The aggregator passes it on unchanged.  A subject that contains
  \<open>Folio: 123456\<close>, with no further digit after it and no match of the \<open>folio\<close>
  pattern starting before it, has folio \<open>123456\<close>.  The \<open>folio\<close> pattern wins
  over a \<open>factura\<close> label that comes first.
\<close>

theorem folio_first_pattern:
  "dict_get (extract_from_subject subject) ''folio'' =
     (case List.find (\<lambda>p. search True p subject \<noteq> None) folio_patterns of
        None \<Rightarrow> None
      | Some p \<Rightarrow> map_option (\<lambda>m. of_group (group m 1)) (search True p subject))
   \<and> dict_get (extract_attributes_from_email_body subject body) ''folio'' =
       dict_get (extract_from_subject subject) ''folio''
   \<and> (dict_get (extract_from_subject subject) ''folio'' = Some v \<longrightarrow>
       (\<exists>w. v = PyStr w \<and> 6 \<le> length w \<and> list_all (\<lambda>x. 48 \<le> x \<and> x \<le> 57) w))
   \<and> (list_all (\<lambda>p. search True p subject = None) folio_patterns \<longrightarrow>
       dict_get (extract_from_subject subject) ''folio'' = None)
   \<and> (subject = pre @ cp ''Folio: 123456'' @ post \<longrightarrow>
       (\<forall>i<length pre. matches True (folio_patterns ! 0) (drop i subject, []) = []) \<longrightarrow>
       post = [] \<or> \<not> (48 \<le> hd post \<and> hd post \<le> 57) \<longrightarrow>
       dict_get (extract_from_subject subject) ''folio'' = Some (PyStr (cp ''123456'')))
   \<and> extract_from_subject (cp ''Folio: 123456'') = [(''folio'', PyStr (cp ''123456''))]
   \<and> extract_from_subject (cp ''Factura 7654321 FOLIO 123456'') =
       [(''folio'', PyStr (cp ''123456''))]
   \<and> extract_from_subject (cp ''Su boleta 12345'') = []"
proof (intro conjI impI)
  show "dict_get (extract_from_subject subject) ''folio'' =
     (case List.find (\<lambda>p. search True p subject \<noteq> None) folio_patterns of
        None \<Rightarrow> None
      | Some p \<Rightarrow> map_option (\<lambda>m. of_group (group m 1)) (search True p subject))"
    by (simp add: extract_from_subject_get folio_of_def)
next
  show "dict_get (extract_attributes_from_email_body subject body) ''folio'' =
       dict_get (extract_from_subject subject) ''folio''"
    by (simp add: extract_lookup attr_of_def extract_from_subject_get)
next
  assume "dict_get (extract_from_subject subject) ''folio'' = Some v"
  then have "folio_of subject = Some v" by (simp add: extract_from_subject_get)
  then obtain p m where p: "p \<in> set folio_patterns" and m: "search True p subject = Some m"
    and v: "v = of_group (group m 1)"
    by (auto simp: folio_of_def split: option.splits dest: find_SomeD)
  from folio_pattern_group[OF p m[unfolded search_def]] v
  show "\<exists>w. v = PyStr w \<and> 6 \<le> length w \<and> list_all (\<lambda>x. 48 \<le> x \<and> x \<le> 57) w"
    by (auto simp: of_group_def)
next
  assume "list_all (\<lambda>p. search True p subject = None) folio_patterns"
  then have "List.find (\<lambda>p. search True p subject \<noteq> None) folio_patterns = None"
    by (simp add: find_None_iff list_all_iff)
  then show "dict_get (extract_from_subject subject) ''folio'' = None"
    by (simp add: extract_from_subject_get folio_of_def)
next
  assume "subject = pre @ cp ''Folio: 123456'' @ post"
    and "\<forall>i<length pre. matches True (folio_patterns ! 0) (drop i subject, []) = []"
    and "post = [] \<or> \<not> (48 \<le> hd post \<and> hd post \<le> 57)"
  then have "folio_of subject = Some (PyStr (cp ''123456''))" by (rule folio_contains)
  then show "dict_get (extract_from_subject subject) ''folio'' = Some (PyStr (cp ''123456''))"
    by (simp add: extract_from_subject_get)
next
  show "extract_from_subject (cp ''Folio: 123456'') = [(''folio'', PyStr (cp ''123456''))]"
    by (simp add: extract_from_subject_def dict_set_def pat_defs ev)
next
  show "extract_from_subject (cp ''Factura 7654321 FOLIO 123456'') =
       [(''folio'', PyStr (cp ''123456''))]"
    by (simp add: extract_from_subject_def dict_set_def pat_defs ev)
next
  show "extract_from_subject (cp ''Su boleta 12345'') = []"
    by (simp add: extract_from_subject_def dict_set_def pat_defs ev)
qed

theorem folio_first_pattern_witness:
  "cp ''Re: Folio: 123456 Enel'' = cp ''Re: '' @ cp ''Folio: 123456'' @ cp '' Enel'' \<and>
   matches True (folio_patterns ! 0) (drop 0 (cp ''Re: Folio: 123456 Enel''), []) = [] \<and>
   matches True (folio_patterns ! 0) (drop 1 (cp ''Re: Folio: 123456 Enel''), []) = [] \<and>
   matches True (folio_patterns ! 0) (drop 2 (cp ''Re: Folio: 123456 Enel''), []) = [] \<and>
   matches True (folio_patterns ! 0) (drop 3 (cp ''Re: Folio: 123456 Enel''), []) = [] \<and>
   hd (cp '' Enel'') = 32 \<and>
   dict_get (extract_from_subject (cp ''Re: Folio: 123456 Enel'')) ''folio'' =
     Some (PyStr (cp ''123456'')) \<and>
   (\<exists>w. PyStr (cp ''123456'') = PyStr w \<and> 6 \<le> length w \<and> list_all (\<lambda>x. 48 \<le> x \<and> x \<le> 57) w) \<and>
   list_all (\<lambda>p. search True p (cp ''Hola'') = None) folio_patterns \<and>
   dict_get (extract_from_subject (cp ''Hola'')) ''folio'' = None"
proof -
  let ?S = "cp ''Re: Folio: 123456 Enel''"
  have t: "?S = cp ''Re: '' @ cp ''Folio: 123456'' @ cp '' Enel''" by (simp add: cp_def)
  have n: "\<forall>i<length (cp ''Re: ''). matches True (folio_patterns ! 0) (drop i ?S, []) = []"
  proof (intro allI impI)
    fix i assume "i < length (cp ''Re: '')"
    then have "i < 4" by (simp add: cp_def)
    from less_cases_4[OF this] show "matches True (folio_patterns ! 0) (drop i ?S, []) = []"
      by (elim disjE) (simp_all add: pat_defs ev)
  qed
  have p: "cp '' Enel'' = [] \<or> \<not> (48 \<le> hd (cp '' Enel'') \<and> hd (cp '' Enel'') \<le> 57)"
    by (simp add: cp_def)
  note th = folio_first_pattern[of ?S _ "PyStr (cp ''123456'')" "cp ''Re: ''" "cp '' Enel''"]
  note c5 = th[THEN conjunct2, THEN conjunct2, THEN conjunct2, THEN conjunct2, THEN conjunct1]
  from c5[THEN mp, OF t, THEN mp, OF n, THEN mp, OF p]
  have r: "dict_get (extract_from_subject ?S) ''folio'' = Some (PyStr (cp ''123456''))" .
  note c3 = th[THEN conjunct2, THEN conjunct2, THEN conjunct1]
  from c3[THEN mp, OF r]
  have w: "\<exists>w. PyStr (cp ''123456'') = PyStr w \<and> 6 \<le> length w \<and>
      list_all (\<lambda>x. 48 \<le> x \<and> x \<le> 57) w" .
  have a: "list_all (\<lambda>p. search True p (cp ''Hola'') = None) folio_patterns"
    by (simp add: pat_defs ev)
  note c4 = folio_first_pattern[of "cp ''Hola''", THEN conjunct2, THEN conjunct2, THEN conjunct2,
      THEN conjunct1]
  from c4[THEN mp, OF a] have z: "dict_get (extract_from_subject (cp ''Hola'')) ''folio'' = None" .
  have q: "hd (cp '' Enel'') = 32" by (simp add: cp_def)
  have l4: "length (cp ''Re: '') = 4" by (simp add: cp_def)
  from n[rule_format, of 0] n[rule_format, of 1] n[rule_format, of 2] n[rule_format, of 3]
  have "matches True (folio_patterns ! 0) (drop 0 ?S, []) = []"
    and "matches True (folio_patterns ! 0) (drop 1 ?S, []) = []"
    and "matches True (folio_patterns ! 0) (drop 2 ?S, []) = []"
    and "matches True (folio_patterns ! 0) (drop 3 ?S, []) = []" unfolding l4 by simp_all
  with t q r w a z show ?thesis by (intro conjI)
qed

end
